theory Spec2Isabelle
  imports Complex_Main
begin

section \<open>Data model: the two data frames of \<open>match_ardex_data.py\<close>\<close>

text \<open>
  A data frame is a list of rows; the index label of a row is its position, as in the
  \<open>RangeIndex\<close> that \<open>load_file\<close> (\<open>pd.read_csv\<close>, \<open>pd.read_excel\<close>) gives a frame.
  A row is a record with one field per column the program reads or writes.

  Cells are typed as the program uses them:
  \<^item> text cells are \<open>string\<close>; characters are code points below 256; the names,
    the reward label, the phone numbers and the event identifier are text in every
    row (no missing value), the phone numbers being their \<open>str\<close> rendering;
  \<^item> a calendar date (\<open>datetime.date\<close>) is its day number (\<open>date.toordinal()\<close>), an
    \<open>int\<close>; \<open>pd.to_datetime\<close> only yields dates between the years 1677 and 2262, so
    adding seven days never leaves the range of \<open>datetime.date\<close>;
  \<open>2024-01-01\<close> is day 738886;
  \<^item> a float cell is \<open>real option\<close>, \<open>None\<close> being NaN;
  \<^item> the secondary frame's \<open>'CASHVIP?'\<close> cell is \<open>string option\<close>, \<open>None\<close> being
    the missing value (NaN) of an empty cell;
  \<^item> the column \<open>'last_10_digits'\<close> of the primary frame is read by \<open>match_data\<close>
    and written by nobody: its entry is \<open>cell option\<close>, \<open>None\<close> when the frame has
    no such column, and otherwise the cell as the file gave it: text, a number
    (\<open>pd.read_csv\<close> reads a column of digits as \<open>int64\<close>), or NaN for an empty cell.
\<close>

datatype cell = Text string | Number real | NaN

record raw_primary =
  Event_ID :: string
  Given_Name :: string
  Family_Name :: string
  Reward_Name :: string
  Telephone_Number :: string
  Reported_At :: int
  last_10_digits :: "cell option"

text \<open>The columns \<open>prepare_data\<close> adds to the primary frame.\<close>

record primary_row = raw_primary +
  name :: string
  amount :: "real option"
  CASHVIP :: string

record raw_secondary =
  Recipient_Phone_Number :: string
  Recipient :: string
  Order_Release_Date :: int
  Amount :: "real option"
  CASHVIP_q :: "string option"

text \<open>
  \<open>match_data\<close> adds the column \<open>'Event ID'\<close> to the secondary frame (\<open>None\<close> until
  assigned), and the returned copy has the further column \<open>'secondary'\<close>.
\<close>

record secondary_row = raw_secondary +
  sec_Event_ID :: "string option"

record out_secondary_row = secondary_row +
  secondary_col :: bool

datatype error = KeyError string | TypeError

section \<open>String operations of Python used by the program\<close>

text \<open>\<open>s[-n:]\<close>: the last \<open>n\<close> characters, the whole string when it is shorter.\<close>

definition last_chars :: "nat \<Rightarrow> string \<Rightarrow> string" where
  "last_chars n s = drop (length s - n) s"

text \<open>\<open>s.endswith(suf)\<close>.\<close>

definition endswith :: "string \<Rightarrow> string \<Rightarrow> bool" where
  "endswith s suf = (length suf \<le> length s \<and> drop (length s - length suf) s = suf)"

text \<open>\<open>s.startswith(pre)\<close> and \<open>sub in s\<close>.\<close>

definition startswith :: "string \<Rightarrow> string \<Rightarrow> bool" where
  "startswith s pre = (take (length pre) s = pre)"

fun contains :: "string \<Rightarrow> string \<Rightarrow> bool" where
  "contains [] sub = (sub = [])"
| "contains (c # cs) sub = (startswith (c # cs) sub \<or> contains cs sub)"

text \<open>
  \<open>s.lower()\<close> on code points below 256: the letters \<open>A\<close> to \<open>Z\<close> and the capital
  letters U+00C0 to U+00DE (all of that range but the multiplication sign U+00D7) move
  32 places up; every other character is kept.
\<close>

definition lower_char :: "char \<Rightarrow> char" where
  "lower_char c =
     (let n = (of_char c :: nat)
      in if (65 \<le> n \<and> n \<le> 90) \<or> (192 \<le> n \<and> n \<le> 222 \<and> n \<noteq> 215)
         then char_of (n + 32) else c)"

definition lower :: "string \<Rightarrow> string" where
  "lower s = map lower_char s"

section \<open>\<open>prepare_data\<close>\<close>

text \<open>
  \<open>primary['Reward Name'].str.extract(r'\<dots>(\d+)').astype(float)\<close>: the pattern is the two
  characters U+00C2, U+00A3 followed by one or more digits; the first match (leftmost)
  gives the longest run of digits after the two characters, and a text with no match
  gives NaN.
\<close>

definition is_digit :: "char \<Rightarrow> bool" where
  "is_digit c = (let n = (of_char c :: nat) in 48 \<le> n \<and> n \<le> 57)"

fun extract_digits :: "string \<Rightarrow> string option" where
  "extract_digits [] = None"
| "extract_digits (c # cs) =
     (if startswith (c # cs) [CHR 0xC2, CHR 0xA3] \<and> takeWhile is_digit (drop 1 cs) \<noteq> []
      then Some (takeWhile is_digit (drop 1 cs))
      else extract_digits cs)"

definition digits_value :: "string \<Rightarrow> nat" where
  "digits_value ds = foldl (\<lambda>acc c. 10 * acc + (of_char c - 48)) 0 ds"

definition extract_amount :: "string \<Rightarrow> real option" where
  "extract_amount x = map_option (\<lambda>ds. real (digits_value ds)) (extract_digits x)"

text \<open>
  One row of the primary frame after \<open>prepare_data\<close>. The dates are already calendar
  dates in this model, so \<open>pd.to_datetime(\<dots>).dt.date\<close> keeps them.
\<close>

definition prepare_primary_row :: "raw_primary \<Rightarrow> primary_row" where
  "prepare_primary_row r =
     \<lparr> Event_ID = Event_ID r,
       Given_Name = Given_Name r,
       Family_Name = Family_Name r,
       Reward_Name = Reward_Name r,
       Telephone_Number = last_chars 10 (Telephone_Number r),
       Reported_At = Reported_At r,
       last_10_digits = last_10_digits r,
       name = Given_Name r @ '' '' @ Family_Name r,
       amount = extract_amount (Reward_Name r),
       CASHVIP = (if contains (Reward_Name r) ''CASHVIP'' then ''YES'' else ''NO'') \<rparr>"

record prepared =
  prep_primary :: "primary_row list"
  prep_secondary :: "raw_secondary list"

definition prepare_data :: "raw_primary list \<Rightarrow> raw_secondary list \<Rightarrow> prepared" where
  "prepare_data primary secondary =
     \<lparr> prep_primary = map prepare_primary_row primary, prep_secondary = secondary \<rparr>"

section \<open>\<open>match_data\<close>\<close>

text \<open>
  The condition of line 115. Python evaluates \<open>str(secondary_row[\<dots>])\<close>, then
  \<open>primary_row['last_10_digits']\<close>, which raises \<open>KeyError\<close> when the row has no such
  entry, then \<open>.endswith(\<dots>)\<close>, which raises \<open>TypeError\<close> unless its argument is text.
\<close>

definition join_pred :: "primary_row \<Rightarrow> 'a raw_secondary_scheme \<Rightarrow> error + bool" where
  "join_pred p s =
     (case last_10_digits p of
        None \<Rightarrow> Inl (KeyError ''last_10_digits'')
      | Some (Text suf) \<Rightarrow>
          Inr (endswith (Recipient_Phone_Number s) suf \<and> lower (name p) = lower (Recipient s))
      | Some (Number x) \<Rightarrow> Inl TypeError
      | Some NaN \<Rightarrow> Inl TypeError)"

text \<open>The rows on which line 115 raises nothing: the entry is there and is text.\<close>

definition suffix_is_text :: "primary_row \<Rightarrow> bool" where
  "suffix_is_text p = (case last_10_digits p of Some (Text suf) \<Rightarrow> True | _ \<Rightarrow> False)"

text \<open>
  The conjuncts of the condition of lines 118 to 122. None of them reads the column
  \<open>'Event ID'\<close>, so they are stated for a secondary row with any further columns.
\<close>

definition window_pred :: "primary_row \<Rightarrow> 'a raw_secondary_scheme \<Rightarrow> bool" where
  "window_pred p s =
     (Order_Release_Date s > Reported_At p \<and> Order_Release_Date s \<le> Reported_At p + 7)"

text \<open>\<open>==\<close> on floats: NaN equals nothing, itself included.\<close>

definition float_eq :: "real option \<Rightarrow> real option \<Rightarrow> bool" where
  "float_eq a b = (case a of None \<Rightarrow> False | Some x \<Rightarrow> (case b of None \<Rightarrow> False | Some y \<Rightarrow> x = y))"

definition amount_pred :: "primary_row \<Rightarrow> 'a raw_secondary_scheme \<Rightarrow> bool" where
  "amount_pred p s = float_eq (amount p) (Amount s)"

definition vip_pred :: "primary_row \<Rightarrow> 'a raw_secondary_scheme \<Rightarrow> bool" where
  "vip_pred p s =
     ((CASHVIP p = ''YES'' \<and> CASHVIP_q s = Some ''YES'') \<or>
      (CASHVIP p = '''' \<and> CASHVIP_q s = None))"

text \<open>Both \<open>if\<close>s of the loop body: whether the pair is matched, or the exception.\<close>

definition is_match :: "primary_row \<Rightarrow> 'a raw_secondary_scheme \<Rightarrow> error + bool" where
  "is_match p s =
     (case join_pred p s of
        Inl e \<Rightarrow> Inl e
      | Inr b \<Rightarrow> Inr (b \<and> window_pred p s \<and> amount_pred p s \<and> vip_pred p s))"

text \<open>
  The inner loop over the rows of the filtered frame, with their labels: the label of
  the first row that matches (the \<open>break\<close>), \<open>None\<close> when the loop runs to its end.
\<close>

fun scan :: "primary_row \<Rightarrow> (nat \<times> secondary_row) list \<Rightarrow> error + nat option" where
  "scan p [] = Inr None"
| "scan p ((j, s) # rest) =
     (case is_match p s of
        Inl e \<Rightarrow> Inl e
      | Inr True \<Rightarrow> Inr (Some j)
      | Inr False \<Rightarrow> scan p rest)"

record match_state =
  secondary :: "secondary_row list"
  unmatched_primary_indices :: "nat list"
  unmatched_secondary_indices :: "nat list"

text \<open>\<open>secondary[secondary.index.isin(unmatched_secondary_indices)].iterrows()\<close>.\<close>

definition candidates :: "match_state \<Rightarrow> (nat \<times> secondary_row) list" where
  "candidates st =
     filter (\<lambda>(j, s). j \<in> set (unmatched_secondary_indices st)) (enumerate 0 (secondary st))"

text \<open>\<open>if x in xs: xs.remove(x)\<close>; \<open>list.remove\<close> deletes the first occurrence.\<close>

definition remove_if_in :: "nat \<Rightarrow> nat list \<Rightarrow> nat list" where
  "remove_if_in x xs = (if x \<in> set xs then remove1 x xs else xs)"

text \<open>Lines 125 to 129: the assignment of a matched pair.\<close>

definition assign :: "nat \<Rightarrow> primary_row \<Rightarrow> nat \<Rightarrow> match_state \<Rightarrow> match_state" where
  "assign i p j st =
     \<lparr> secondary = (secondary st)[j := (secondary st ! j)\<lparr>sec_Event_ID := Some (Event_ID p)\<rparr>],
       unmatched_primary_indices = remove_if_in i (unmatched_primary_indices st),
       unmatched_secondary_indices = remove_if_in j (unmatched_secondary_indices st) \<rparr>"

text \<open>One round of the outer loop, for the primary row \<open>p\<close> of label \<open>i\<close>.\<close>

definition outer_step :: "nat \<times> primary_row \<Rightarrow> match_state \<Rightarrow> error + match_state" where
  "outer_step ip st =
     (case scan (snd ip) (candidates st) of
        Inl e \<Rightarrow> Inl e
      | Inr None \<Rightarrow> Inr st
      | Inr (Some j) \<Rightarrow> Inr (assign (fst ip) (snd ip) j st))"

fun outer_loop :: "(nat \<times> primary_row) list \<Rightarrow> match_state \<Rightarrow> error + match_state" where
  "outer_loop [] st = Inr st"
| "outer_loop (ip # rest) st =
     (case outer_step ip st of
        Inl e \<Rightarrow> Inl e
      | Inr st' \<Rightarrow> outer_loop rest st')"

text \<open>\<open>secondary['Event ID'] = None\<close>.\<close>

definition add_Event_ID :: "raw_secondary \<Rightarrow> secondary_row" where
  "add_Event_ID s =
     \<lparr> Recipient_Phone_Number = Recipient_Phone_Number s,
       Recipient = Recipient s,
       Order_Release_Date = Order_Release_Date s,
       Amount = Amount s,
       CASHVIP_q = CASHVIP_q s,
       sec_Event_ID = None \<rparr>"

text \<open>\<open>drop(columns=['Event ID'])\<close>.\<close>

definition drop_Event_ID :: "secondary_row \<Rightarrow> raw_secondary" where
  "drop_Event_ID s =
     \<lparr> Recipient_Phone_Number = Recipient_Phone_Number s,
       Recipient = Recipient s,
       Order_Release_Date = Order_Release_Date s,
       Amount = Amount s,
       CASHVIP_q = CASHVIP_q s \<rparr>"

text \<open>\<open>secondary.assign(secondary=secondary['Event ID'].notnull())\<close>.\<close>

definition add_secondary_col :: "secondary_row \<Rightarrow> out_secondary_row" where
  "add_secondary_col s =
     \<lparr> Recipient_Phone_Number = Recipient_Phone_Number s,
       Recipient = Recipient s,
       Order_Release_Date = Order_Release_Date s,
       Amount = Amount s,
       CASHVIP_q = CASHVIP_q s,
       sec_Event_ID = sec_Event_ID s,
       secondary_col = (sec_Event_ID s \<noteq> None) \<rparr>"

text \<open>
  \<open>frame.loc[labels]\<close>: the rows of the labels, in the order of the labels, each with
  its label. The labels given here are always labels of the frame.
\<close>

definition loc :: "'a list \<Rightarrow> nat list \<Rightarrow> (nat \<times> 'a) list" where
  "loc frame labels = map (\<lambda>i. (i, frame ! i)) labels"

record match_result =
  res_primary :: "primary_row list"
  res_secondary :: "out_secondary_row list"
  missing_events :: "(nat \<times> primary_row) list"
  missing_rewards :: "(nat \<times> raw_secondary) list"

definition initial_state :: "primary_row list \<Rightarrow> raw_secondary list \<Rightarrow> match_state" where
  "initial_state primary secondary0 =
     \<lparr> secondary = map add_Event_ID secondary0,
       unmatched_primary_indices = [0 ..< length primary],
       unmatched_secondary_indices = [0 ..< length secondary0] \<rparr>"

text \<open>The state when the loops are over, or the exception that ended them.\<close>

definition run_loops :: "primary_row list \<Rightarrow> raw_secondary list \<Rightarrow> error + match_state" where
  "run_loops primary secondary0 =
     outer_loop (enumerate 0 primary) (initial_state primary secondary0)"

definition match_data :: "primary_row list \<Rightarrow> raw_secondary list \<Rightarrow> error + match_result" where
  "match_data primary secondary0 =
     (case run_loops primary secondary0 of
        Inl e \<Rightarrow> Inl e
      | Inr st \<Rightarrow>
          Inr \<lparr> res_primary = primary,
                res_secondary = map add_secondary_col (secondary st),
                missing_events = loc primary (unmatched_primary_indices st),
                missing_rewards =
                  map (\<lambda>(j, s). (j, drop_Event_ID s))
                    (loc (secondary st) (unmatched_secondary_indices st)) \<rparr>)"

text \<open>
  Lines 158 to 160 of \<open>main\<close>: the frames as loaded go through \<open>prepare_data\<close>, then
  through \<open>match_data\<close>.
\<close>

definition prepare_and_match :: "raw_primary list \<Rightarrow> raw_secondary list \<Rightarrow> error + match_result" where
  "prepare_and_match primary secondary0 =
     (let prepared_data = prepare_data primary secondary0
      in match_data (prep_primary prepared_data) (prep_secondary prepared_data))"

text \<open>The columns a secondary row had on input, for comparing frames before and after.\<close>

definition input_columns :: "'a raw_secondary_scheme \<Rightarrow> raw_secondary" where
  "input_columns s =
     \<lparr> Recipient_Phone_Number = Recipient_Phone_Number s,
       Recipient = Recipient s,
       Order_Release_Date = Order_Release_Date s,
       Amount = Amount s,
       CASHVIP_q = CASHVIP_q s \<rparr>"

section \<open>Example frames\<close>

text \<open>
  The example scenario of the specification. \<open>jane_raw\<close> is the row as loaded (a reward
  label without \<open>CASHVIP\<close>, and a \<open>'last_10_digits'\<close> column holding the phone suffix);
  \<open>jane\<close> is the row \<open>prepare_data\<close> makes of it.
\<close>

definition jane_raw :: raw_primary where
  "jane_raw =
     \<lparr> Event_ID = ''E1'', Given_Name = ''jane'', Family_Name = ''doe'',
       Reward_Name = [CHR 0xC2, CHR 0xA3] @ ''50 Gift Card'',
       Telephone_Number = ''+15551234567'', Reported_At = 738886,
       last_10_digits = Some (Text ''5551234567'') \<rparr>"

definition jane :: primary_row where
  "jane =
     \<lparr> Event_ID = ''E1'', Given_Name = ''jane'', Family_Name = ''doe'',
       Reward_Name = [CHR 0xC2, CHR 0xA3] @ ''50 Gift Card'',
       Telephone_Number = ''5551234567'', Reported_At = 738886,
       last_10_digits = Some (Text ''5551234567''),
       name = ''jane doe'', amount = Some 50, CASHVIP = ''NO'' \<rparr>"

definition jane_payout :: raw_secondary where
  "jane_payout =
     \<lparr> Recipient_Phone_Number = ''+15551234567'', Recipient = ''Jane Doe'',
       Order_Release_Date = 738888, Amount = Some 50, CASHVIP_q = None \<rparr>"

definition jane_unmatched :: match_result where
  "jane_unmatched =
     \<lparr> res_primary = [jane],
       res_secondary =
         [\<lparr> Recipient_Phone_Number = ''+15551234567'', Recipient = ''Jane Doe'',
            Order_Release_Date = 738888, Amount = Some 50, CASHVIP_q = None,
            sec_Event_ID = None, secondary_col = False \<rparr>],
       missing_events = [(0, jane)],
       missing_rewards = [(0, jane_payout)] \<rparr>"

text \<open>
  A VIP reward of 20, as loaded from a file that has the columns \<open>prepare_data\<close> reads
  and no others, and payouts for it released \<open>d\<close> days after the report.
\<close>

definition vip_raw :: raw_primary where
  "vip_raw =
     \<lparr> Event_ID = ''E7'', Given_Name = ''Sam'', Family_Name = ''Lee'',
       Reward_Name = ''CASHVIP '' @ [CHR 0xC2, CHR 0xA3] @ ''20'',
       Telephone_Number = ''+15550001111'', Reported_At = 738886,
       last_10_digits = None \<rparr>"

definition vip_payout :: "int \<Rightarrow> raw_secondary" where
  "vip_payout d =
     \<lparr> Recipient_Phone_Number = ''+15550001111'', Recipient = ''SAM LEE'',
       Order_Release_Date = 738886 + d, Amount = Some 20, CASHVIP_q = Some ''YES'' \<rparr>"

text \<open>The same reward in a frame that carries the column \<open>'last_10_digits'\<close>.\<close>

definition vip :: primary_row where
  "vip = (prepare_primary_row vip_raw)\<lparr>last_10_digits := Some (Text ''5550001111'')\<rparr>"

text \<open>A VIP reward whose label names no amount.\<close>

definition no_amount_raw :: raw_primary where
  "no_amount_raw =
     \<lparr> Event_ID = ''E9'', Given_Name = ''Sam'', Family_Name = ''Lee'',
       Reward_Name = ''CASHVIP reward'',
       Telephone_Number = ''+15550001111'', Reported_At = 738886,
       last_10_digits = Some (Text ''5550001111'') \<rparr>"

definition no_amount :: primary_row where
  "no_amount = prepare_primary_row no_amount_raw"

text \<open>
  Two VIP rewards of the same person and amount, and the reward of the example
  scenario; four payouts, the first outside the window of both VIP rewards.
\<close>

definition demo_primary :: "primary_row list" where
  "demo_primary = [vip, vip\<lparr>Event_ID := ''E8''\<rparr>, jane]"

definition demo_secondary :: "raw_secondary list" where
  "demo_secondary = [vip_payout 9, vip_payout 1, jane_payout, vip_payout 2]"

definition demo_result :: match_result where
  "demo_result =
     \<lparr> res_primary = demo_primary,
       res_secondary =
         [\<lparr> Recipient_Phone_Number = ''+15550001111'', Recipient = ''SAM LEE'',
            Order_Release_Date = 738895, Amount = Some 20, CASHVIP_q = Some ''YES'',
            sec_Event_ID = None, secondary_col = False \<rparr>,
          \<lparr> Recipient_Phone_Number = ''+15550001111'', Recipient = ''SAM LEE'',
            Order_Release_Date = 738887, Amount = Some 20, CASHVIP_q = Some ''YES'',
            sec_Event_ID = Some ''E7'', secondary_col = True \<rparr>,
          \<lparr> Recipient_Phone_Number = ''+15551234567'', Recipient = ''Jane Doe'',
            Order_Release_Date = 738888, Amount = Some 50, CASHVIP_q = None,
            sec_Event_ID = None, secondary_col = False \<rparr>,
          \<lparr> Recipient_Phone_Number = ''+15550001111'', Recipient = ''SAM LEE'',
            Order_Release_Date = 738888, Amount = Some 20, CASHVIP_q = Some ''YES'',
            sec_Event_ID = Some ''E8'', secondary_col = True \<rparr>],
       missing_events = [(2, jane)],
       missing_rewards = [(0, vip_payout 9), (2, jane_payout)] \<rparr>"

text \<open>
  Two rewards that fit the same payouts, and three payouts of which the last two fit
  the reward \<open>vip\<close>.
\<close>

definition twin_rewards :: "primary_row list" where
  "twin_rewards = [vip, vip\<lparr>Event_ID := ''E8''\<rparr>]"

definition three_payouts :: "raw_secondary list" where
  "three_payouts = [vip_payout 9, vip_payout 1, vip_payout 2]"

text \<open>
  A reward of somebody else before the two rewards of the same person, and two payouts
  of which only the second is inside the window.
\<close>

definition queue_rewards :: "primary_row list" where
  "queue_rewards = [jane, vip, vip\<lparr>Event_ID := ''E8''\<rparr>]"

definition queue_payouts :: "raw_secondary list" where
  "queue_payouts = [vip_payout 9, vip_payout 1]"

text \<open>
  Two rewards reported on the same day and two reported five days later, all of the
  same person and amount, and two payouts: the first fits the first two rewards only,
  the second fits all four.
\<close>

definition late :: primary_row where
  "late = vip\<lparr>Event_ID := ''E9'', Reported_At := 738891\<rparr>"

definition relay_rewards :: "primary_row list" where
  "relay_rewards = [vip, vip\<lparr>Event_ID := ''E8''\<rparr>, late, late\<lparr>Event_ID := ''E10''\<rparr>]"

definition relay_payouts :: "raw_secondary list" where
  "relay_payouts = [vip_payout 1, vip_payout 6]"

definition relay_result :: match_result where
  "relay_result =
     \<lparr> res_primary = relay_rewards,
       res_secondary =
         [\<lparr> Recipient_Phone_Number = ''+15550001111'', Recipient = ''SAM LEE'',
            Order_Release_Date = 738887, Amount = Some 20, CASHVIP_q = Some ''YES'',
            sec_Event_ID = Some ''E7'', secondary_col = True \<rparr>,
          \<lparr> Recipient_Phone_Number = ''+15550001111'', Recipient = ''SAM LEE'',
            Order_Release_Date = 738892, Amount = Some 20, CASHVIP_q = Some ''YES'',
            sec_Event_ID = Some ''E8'', secondary_col = True \<rparr>],
       missing_events = [(2, late), (3, late\<lparr>Event_ID := ''E10''\<rparr>)],
       missing_rewards = [] \<rparr>"

text \<open>
  The reward without an amount as loaded from a file that has the columns
  \<open>prepare_data\<close> reads and no others.
\<close>

definition no_amount_as_loaded :: raw_primary where
  "no_amount_as_loaded = no_amount_raw\<lparr>last_10_digits := None\<rparr>"

section \<open>Predicates on the state of the loops\<close>

text \<open>
  The list of unmatched secondary labels has no repetition, and a secondary row is on
  it exactly when its \<open>'Event ID'\<close> is still \<open>None\<close>.
\<close>

definition consistent :: "match_state \<Rightarrow> bool" where
  "consistent st =
     (distinct (unmatched_secondary_indices st) \<and>
      (\<forall>j < length (secondary st).
         (j \<in> set (unmatched_secondary_indices st)) = (sec_Event_ID (secondary st ! j) = None)))"

text \<open>No identifier stands in two rows; an identifier that stands in no row.\<close>

definition unique_ids :: "secondary_row list \<Rightarrow> bool" where
  "unique_ids ss =
     (\<forall>j1 < length ss. \<forall>j2 < length ss.
        sec_Event_ID (ss ! j1) \<noteq> None \<and> sec_Event_ID (ss ! j1) = sec_Event_ID (ss ! j2)
          \<longrightarrow> j1 = j2)"

definition unused_id :: "secondary_row list \<Rightarrow> string \<Rightarrow> bool" where
  "unused_id ss e = (\<forall>j < length ss. sec_Event_ID (ss ! j) \<noteq> Some e)"

section \<open>The condition\<close>

lemma is_match_add_Event_ID: "is_match p (add_Event_ID s) = is_match p s"
  by (simp add: is_match_def join_pred_def window_pred_def amount_pred_def vip_pred_def
      add_Event_ID_def split: option.splits cell.splits)

lemma is_match_Inl_iff:
  "is_match p s = Inl e \<longleftrightarrow>
     (last_10_digits p = None \<and> e = KeyError ''last_10_digits'') \<or>
     (last_10_digits p \<noteq> None \<and> \<not> suffix_is_text p \<and> e = TypeError)"
  by (auto simp: is_match_def join_pred_def suffix_is_text_def split: option.splits cell.splits)

lemma is_match_returns: "suffix_is_text p \<Longrightarrow> \<exists>b. is_match p s = Inr b"
  by (auto simp: is_match_def join_pred_def suffix_is_text_def split: option.splits cell.splits)

lemma is_match_True_iff:
  "is_match p s = Inr True \<longleftrightarrow>
     (\<exists>suf. last_10_digits p = Some (Text suf) \<and> endswith (Recipient_Phone_Number s) suf) \<and>
     lower (name p) = lower (Recipient s) \<and> window_pred p s \<and> amount_pred p s \<and> vip_pred p s"
  by (auto simp: is_match_def join_pred_def split: option.splits cell.splits)

section \<open>The inner loop\<close>

lemma scan_returns: "suffix_is_text p \<Longrightarrow> \<exists>r. scan p cs = Inr r"
proof (induction cs)
  case Nil
  show ?case by simp
next
  case (Cons c cs)
  obtain j s where c: "c = (j, s)" by (cases c)
  from is_match_returns [OF Cons.prems] obtain b where "is_match p s = Inr b"
    by blast
  with Cons c show ?case by (cases b) auto
qed

lemma scan_Some_split:
  "scan p cs = Inr (Some j) \<Longrightarrow>
     \<exists>pre s post. cs = pre @ (j, s) # post \<and> is_match p s = Inr True \<and>
       (\<forall>c \<in> set pre. is_match p (snd c) = Inr False)"
proof (induction cs)
  case Nil
  then show ?case by simp
next
  case (Cons c cs)
  obtain j' s' where c: "c = (j', s')" by (cases c)
  show ?case
  proof (cases "is_match p s'")
    case (Inl e)
    with Cons.prems c show ?thesis by simp
  next
    case (Inr b)
    show ?thesis
    proof (cases b)
      case True
      with Inr Cons.prems c have "j' = j" by simp
      with True Inr c have "c # cs = [] @ (j, s') # cs \<and> is_match p s' = Inr True" by simp
      then show ?thesis by fastforce
    next
      case False
      with Inr Cons.prems c have "scan p cs = Inr (Some j)" by simp
      from Cons.IH [OF this] obtain pre s post where
        h: "cs = pre @ (j, s) # post" "is_match p s = Inr True"
           "\<forall>c \<in> set pre. is_match p (snd c) = Inr False" by blast
      from h False Inr c have "c # cs = (c # pre) @ (j, s) # post \<and> is_match p s = Inr True \<and>
           (\<forall>c \<in> set (c # pre). is_match p (snd c) = Inr False)" by simp
      then show ?thesis by blast
    qed
  qed
qed

lemma scan_first:
  "(\<forall>c \<in> set pre. is_match p (snd c) = Inr False) \<Longrightarrow> is_match p s = Inr True \<Longrightarrow>
     scan p (pre @ (j, s) # post) = Inr (Some j)"
  by (induction pre) (auto split: prod.splits)

lemma in_candidates:
  "(j, s) \<in> set (candidates st) \<longleftrightarrow>
     j < length (secondary st) \<and> s = secondary st ! j \<and> j \<in> set (unmatched_secondary_indices st)"
  by (auto simp: candidates_def in_set_enumerate_eq)

lemma scan_candidates_Some:
  assumes "scan p (candidates st) = Inr (Some j)"
  shows "j < length (secondary st) \<and> j \<in> set (unmatched_secondary_indices st) \<and>
         is_match p (secondary st ! j) = Inr True"
proof -
  from scan_Some_split [OF assms] obtain pre s post where
    h: "candidates st = pre @ (j, s) # post" "is_match p s = Inr True" by blast
  from h(1) have "(j, s) \<in> set (candidates st)" by simp
  with h(2) show ?thesis by (simp add: in_candidates)
qed

section \<open>One round of the outer loop\<close>

lemma outer_step_cases:
  assumes "outer_step ip st = Inr st'"
  shows "st' = st \<or>
    (\<exists>j. st' = assign (fst ip) (snd ip) j st \<and> j < length (secondary st) \<and>
       j \<in> set (unmatched_secondary_indices st) \<and>
       is_match (snd ip) (secondary st ! j) = Inr True)"
proof (cases "scan (snd ip) (candidates st)")
  case (Inl e)
  with assms show ?thesis by (simp add: outer_step_def)
next
  case (Inr r)
  show ?thesis
  proof (cases r)
    case None
    with Inr assms show ?thesis by (simp add: outer_step_def)
  next
    case (Some j)
    with Inr assms have "st' = assign (fst ip) (snd ip) j st" by (simp add: outer_step_def)
    moreover from Inr Some have "scan (snd ip) (candidates st) = Inr (Some j)" by simp
    ultimately show ?thesis using scan_candidates_Some by blast
  qed
qed

lemma outer_step_returns:
  "suffix_is_text (snd ip) \<Longrightarrow> \<exists>st'. outer_step ip st = Inr st'"
  using scan_returns [of "snd ip" "candidates st"]
  by (auto simp: outer_step_def split: option.splits)

lemma outer_loop_returns:
  "list_all (\<lambda>ip. suffix_is_text (snd ip)) ps \<Longrightarrow> \<exists>st'. outer_loop ps st = Inr st'"
proof (induction ps arbitrary: st)
  case Nil
  show ?case by simp
next
  case (Cons ip ps)
  from Cons.prems obtain st1 where "outer_step ip st = Inr st1"
    using outer_step_returns [of ip st] by auto
  with Cons show ?case by simp
qed

text \<open>An invariant of the rounds is an invariant of the loop.\<close>

lemma outer_loop_invariant:
  assumes "outer_loop ps st = Inr st'" and "Q st"
    and "\<And>ip s s'. ip \<in> set ps \<Longrightarrow> Q s \<Longrightarrow> outer_step ip s = Inr s' \<Longrightarrow> Q s'"
  shows "Q st'"
  using assms
proof (induction ps arbitrary: st)
  case Nil
  then show ?case by simp
next
  case (Cons ip ps)
  from Cons.prems(1) obtain st1 where
    s: "outer_step ip st = Inr st1" and r: "outer_loop ps st1 = Inr st'"
    by (auto split: sum.splits)
  have "ip \<in> set (ip # ps)" by simp
  then have q1: "Q st1" using Cons.prems(2) s by (rule Cons.prems(3))
  show ?case
  proof (rule Cons.IH [OF r q1])
    fix ip' s s'
    assume "ip' \<in> set ps" and q: "Q s" and t: "outer_step ip' s = Inr s'"
    then have "ip' \<in> set (ip # ps)" by simp
    then show "Q s'" using q t by (rule Cons.prems(3))
  qed
qed

lemma outer_loop_append:
  "outer_loop (a @ b) st =
     (case outer_loop a st of Inl e \<Rightarrow> Inl e | Inr st1 \<Rightarrow> outer_loop b st1)"
  by (induction a arbitrary: st) (auto split: sum.splits)

section \<open>Rows that match nothing\<close>

lemma remove_if_in_set: "set (remove_if_in x xs) \<subseteq> set xs"
  using set_remove1_subset [of x xs] by (auto simp: remove_if_in_def)

lemma remove_if_in_other: "y \<noteq> x \<Longrightarrow> y \<in> set (remove_if_in x xs) \<longleftrightarrow> y \<in> set xs"
  by (simp add: remove_if_in_def)

lemma never_matching_label_stays:
  assumes "outer_loop ps st = Inr st'"
    and "i \<in> set (unmatched_primary_indices st)"
    and "\<And>p s. (i, p) \<in> set ps \<Longrightarrow> is_match p (s :: secondary_row) \<noteq> Inr True"
  shows "i \<in> set (unmatched_primary_indices st')"
proof (rule outer_loop_invariant [OF assms(1), where Q = "\<lambda>s. i \<in> set (unmatched_primary_indices s)"])
  show "i \<in> set (unmatched_primary_indices st)" by fact
next
  fix ip s s'
  assume ip: "ip \<in> set ps" and q: "i \<in> set (unmatched_primary_indices s)"
    and step: "outer_step ip s = Inr s'"
  from outer_step_cases [OF step] show "i \<in> set (unmatched_primary_indices s')"
  proof
    assume "s' = s"
    with q show ?thesis by simp
  next
    assume "\<exists>j. s' = assign (fst ip) (snd ip) j s \<and> j < length (secondary s) \<and>
       j \<in> set (unmatched_secondary_indices s) \<and>
       is_match (snd ip) (secondary s ! j) = Inr True"
    then obtain j where s': "s' = assign (fst ip) (snd ip) j s"
      and m: "is_match (snd ip) (secondary s ! j) = Inr True" by blast
    have "fst ip \<noteq> i"
    proof
      assume "fst ip = i"
      with ip have "(i, snd ip) \<in> set ps" by (cases ip) auto
      from assms(3) [OF this] m show False by blast
    qed
    with q s' show ?thesis by (simp add: assign_def remove_if_in_other)
  qed
qed

lemma enumerate_nth: "(i, p) \<in> set (enumerate 0 xs) \<longleftrightarrow> i < length xs \<and> p = xs ! i"
  by (auto simp: in_set_enumerate_eq)

lemma never_matching_row_unmatched:
  assumes "match_data primary secondary0 = Inr r" and "i < length primary"
    and "\<And>s :: secondary_row. is_match (primary ! i) s \<noteq> Inr True"
  shows "(i, primary ! i) \<in> set (missing_events r)"
proof -
  from assms(1) obtain st where
    run: "outer_loop (enumerate 0 primary) (initial_state primary secondary0) = Inr st"
    and r: "missing_events r = loc primary (unmatched_primary_indices st)"
    by (auto simp: match_data_def run_loops_def split: sum.splits)
  have "i \<in> set (unmatched_primary_indices (initial_state primary secondary0))"
    using assms(2) by (simp add: initial_state_def)
  with run have "i \<in> set (unmatched_primary_indices st)"
  proof (rule never_matching_label_stays)
    fix p and s :: secondary_row
    assume "(i, p) \<in> set (enumerate 0 primary)"
    then have "p = primary ! i" by (simp add: enumerate_nth)
    with assms(3) show "is_match p s \<noteq> Inr True" by simp
  qed
  with r show ?thesis by (auto simp: loc_def)
qed

lemma match_data_returns:
  assumes "list_all suffix_is_text primary"
  shows "\<exists>r. match_data primary secondary0 = Inr r"
proof -
  from assms have "list_all (\<lambda>ip. suffix_is_text (snd ip)) (enumerate 0 primary)"
    by (auto simp: list_all_iff in_set_enumerate_eq)
  from outer_loop_returns [OF this, of "initial_state primary secondary0"]
  obtain st where "run_loops primary secondary0 = Inr st"
    by (auto simp: run_loops_def)
  then show ?thesis by (simp add: match_data_def)
qed

lemma no_amount_no_match:
  "amount p = None \<Longrightarrow> is_match p s \<noteq> Inr True"
  by (simp add: is_match_True_iff amount_pred_def float_eq_def)

lemma is_match_False_if:
  "suffix_is_text p \<Longrightarrow> is_match p s \<noteq> Inr True \<Longrightarrow> is_match p s = Inr False"
  using is_match_returns [of p s] by auto

lemma cashvip_no_no_match:
  "CASHVIP p = ''NO'' \<Longrightarrow> is_match p s \<noteq> Inr True"
  by (simp add: is_match_True_iff vip_pred_def)

section \<open>The amount pattern\<close>

lemma extract_digits_Some:
  "extract_digits x = Some ds \<Longrightarrow>
     \<exists>a d b. x = a @ [CHR 0xC2, CHR 0xA3, d] @ b \<and> is_digit d"
proof (induction x)
  case Nil
  then show ?case by simp
next
  case (Cons c cs)
  show ?case
  proof (cases "startswith (c # cs) [CHR 0xC2, CHR 0xA3] \<and> takeWhile is_digit (drop 1 cs) \<noteq> []")
    case True
    then obtain rest where cs: "c = CHR 0xC2" "cs = CHR 0xA3 # rest"
      by (cases cs) (auto simp: startswith_def)
    with True obtain d b where rest: "rest = d # b" "is_digit d"
      by (cases rest) (auto split: if_splits)
    from cs rest have "c # cs = [] @ [CHR 0xC2, CHR 0xA3, d] @ b \<and> is_digit d" by simp
    then show ?thesis by blast
  next
    case False
    with Cons.prems have "extract_digits cs = Some ds" by (simp del: drop_Suc_Cons split: if_splits)
    from Cons.IH [OF this] obtain a d b where
      "cs = a @ [CHR 0xC2, CHR 0xA3, d] @ b" "is_digit d" by blast
    then have "c # cs = (c # a) @ [CHR 0xC2, CHR 0xA3, d] @ b \<and> is_digit d" by simp
    then show ?thesis by blast
  qed
qed

section \<open>The example frames, evaluated\<close>

lemma prepare_jane: "prepare_primary_row jane_raw = jane"
  by code_simp

lemma jane_run: "match_data [jane] [jane_payout] = Inr jane_unmatched"
  by code_simp

lemma jane_empty_cashvip_run:
  "map_sum id (\<lambda>r. (map sec_Event_ID (res_secondary r), missing_events r, missing_rewards r))
     (match_data [jane\<lparr>CASHVIP := ''''\<rparr>] [jane_payout]) = Inr ([Some ''E1''], [], [])"
  by code_simp

lemma no_amount_run:
  "match_data [no_amount] [vip_payout 1] =
     Inr \<lparr> res_primary = [no_amount],
           res_secondary =
             [\<lparr> Recipient_Phone_Number = ''+15550001111'', Recipient = ''SAM LEE'',
                Order_Release_Date = 738887, Amount = Some 20, CASHVIP_q = Some ''YES'',
                sec_Event_ID = None, secondary_col = False \<rparr>],
           missing_events = [(0, no_amount)],
           missing_rewards = [(0, vip_payout 1)] \<rparr>"
  by code_simp

section \<open>What one assignment changes\<close>

lemma assign_simps:
  "length (secondary (assign i p j st)) = length (secondary st)"
  "unmatched_primary_indices (assign i p j st) = remove_if_in i (unmatched_primary_indices st)"
  "unmatched_secondary_indices (assign i p j st) = remove_if_in j (unmatched_secondary_indices st)"
  by (simp_all add: assign_def)

lemma assign_Event_ID:
  "k < length (secondary st) \<Longrightarrow>
     sec_Event_ID (secondary (assign i p j st) ! k) =
       (if k = j then Some (Event_ID p) else sec_Event_ID (secondary st ! k))"
  by (cases "k = j") (simp_all add: assign_def)

lemma assign_input_columns:
  "map input_columns (secondary (assign i p j st)) = map input_columns (secondary st)"
proof (rule nth_equalityI)
  show "length (map input_columns (secondary (assign i p j st))) =
        length (map input_columns (secondary st))"
    by (simp add: assign_def)
next
  fix k
  assume "k < length (map input_columns (secondary (assign i p j st)))"
  then have k: "k < length (secondary st)" by (simp add: assign_def)
  show "map input_columns (secondary (assign i p j st)) ! k =
        map input_columns (secondary st) ! k"
  proof (cases "k = j")
    case True
    with k show ?thesis by (simp add: assign_def input_columns_def)
  next
    case False
    with k show ?thesis by (simp add: assign_def)
  qed
qed

lemma remove_if_in_distinct: "distinct xs \<Longrightarrow> distinct (remove_if_in x xs)"
  by (simp add: remove_if_in_def)

lemma remove_if_in_mem:
  "distinct xs \<Longrightarrow> y \<in> set (remove_if_in x xs) \<longleftrightarrow> y \<noteq> x \<and> y \<in> set xs"
  by (auto simp: remove_if_in_def)

lemma assign_consistent:
  assumes "consistent st"
  shows "consistent (assign i p j st)"
  unfolding consistent_def
proof (intro conjI allI impI)
  from assms show "distinct (unmatched_secondary_indices (assign i p j st))"
    by (simp add: consistent_def assign_simps remove_if_in_distinct)
next
  fix k
  assume "k < length (secondary (assign i p j st))"
  then have k: "k < length (secondary st)" by (simp add: assign_simps)
  from assms have d: "distinct (unmatched_secondary_indices st)"
    and e: "(k \<in> set (unmatched_secondary_indices st)) = (sec_Event_ID (secondary st ! k) = None)"
    using k by (simp_all add: consistent_def)
  show "(k \<in> set (unmatched_secondary_indices (assign i p j st))) =
        (sec_Event_ID (secondary (assign i p j st) ! k) = None)"
    using d e k by (simp add: assign_simps assign_Event_ID remove_if_in_mem)
qed

section \<open>Invariants of the rounds\<close>

lemma outer_step_consistent:
  "consistent s \<Longrightarrow> outer_step ip s = Inr s' \<Longrightarrow> consistent s'"
  using outer_step_cases [of ip s s'] by (auto simp: assign_consistent)

lemma outer_step_length:
  "outer_step ip s = Inr s' \<Longrightarrow> length (secondary s') = length (secondary s)"
  using outer_step_cases [of ip s s'] by (auto simp: assign_simps)

lemma outer_step_input_columns:
  "outer_step ip s = Inr s' \<Longrightarrow>
     map input_columns (secondary s') = map input_columns (secondary s)"
  using outer_step_cases [of ip s s'] by (auto simp: assign_input_columns)

lemma outer_step_primary_subset:
  "outer_step ip s = Inr s' \<Longrightarrow>
     set (unmatched_primary_indices s') \<subseteq> set (unmatched_primary_indices s)"
  using outer_step_cases [of ip s s'] remove_if_in_set [of "fst ip" "unmatched_primary_indices s"]
  by (auto simp: assign_simps)

lemma outer_step_primary_distinct:
  "outer_step ip s = Inr s' \<Longrightarrow> distinct (unmatched_primary_indices s) \<Longrightarrow>
     distinct (unmatched_primary_indices s')"
  using outer_step_cases [of ip s s'] by (auto simp: assign_simps remove_if_in_distinct)

lemma outer_step_secondary_subset:
  "outer_step ip s = Inr s' \<Longrightarrow>
     set (unmatched_secondary_indices s') \<subseteq> set (unmatched_secondary_indices s)"
  using outer_step_cases [of ip s s']
  by (auto simp: assign_simps dest: remove_if_in_set [THEN subsetD])

lemma outer_step_keeps_assigned:
  assumes "outer_step ip s = Inr s'" and "consistent s" and "j < length (secondary s)"
    and "sec_Event_ID (secondary s ! j) = Some e"
  shows "sec_Event_ID (secondary s' ! j) = Some e"
proof -
  from outer_step_cases [OF assms(1)] show ?thesis
  proof
    assume "s' = s"
    with assms(4) show ?thesis by simp
  next
    assume "\<exists>k. s' = assign (fst ip) (snd ip) k s \<and> k < length (secondary s) \<and>
       k \<in> set (unmatched_secondary_indices s) \<and>
       is_match (snd ip) (secondary s ! k) = Inr True"
    then obtain k where s': "s' = assign (fst ip) (snd ip) k s"
      and k: "k < length (secondary s)" "k \<in> set (unmatched_secondary_indices s)" by blast
    from assms(2) k have "sec_Event_ID (secondary s ! k) = None" by (simp add: consistent_def)
    with assms(4) have "j \<noteq> k" by auto
    with s' assms(3,4) show ?thesis by (simp add: assign_Event_ID)
  qed
qed

lemma outer_loop_consistent:
  "outer_loop ps st = Inr st' \<Longrightarrow> consistent st \<Longrightarrow> consistent st'"
  by (rule outer_loop_invariant [where Q = consistent]) (auto intro: outer_step_consistent)

lemma outer_loop_length:
  assumes "outer_loop ps st = Inr st'"
  shows "length (secondary st') = length (secondary st)"
  by (rule outer_loop_invariant [OF assms, where Q = "\<lambda>s. length (secondary s) = length (secondary st)"])
    (auto dest: outer_step_length)

lemma outer_loop_input_columns:
  assumes "outer_loop ps st = Inr st'"
  shows "map input_columns (secondary st') = map input_columns (secondary st)"
  by (rule outer_loop_invariant [OF assms,
        where Q = "\<lambda>s. map input_columns (secondary s) = map input_columns (secondary st)"])
    (auto dest: outer_step_input_columns)

lemma outer_loop_primary_subset:
  assumes "outer_loop ps st = Inr st'"
  shows "set (unmatched_primary_indices st') \<subseteq> set (unmatched_primary_indices st)"
  by (rule outer_loop_invariant [OF assms,
        where Q = "\<lambda>s. set (unmatched_primary_indices s) \<subseteq> set (unmatched_primary_indices st)"])
    (auto dest: outer_step_primary_subset)

lemma outer_loop_primary_distinct:
  assumes "outer_loop ps st = Inr st'" and "distinct (unmatched_primary_indices st)"
  shows "distinct (unmatched_primary_indices st')"
  by (rule outer_loop_invariant [OF assms(1), where Q = "\<lambda>s. distinct (unmatched_primary_indices s)"])
    (auto intro: assms(2) outer_step_primary_distinct)

lemma outer_loop_secondary_subset:
  assumes "outer_loop ps st = Inr st'"
  shows "set (unmatched_secondary_indices st') \<subseteq> set (unmatched_secondary_indices st)"
  by (rule outer_loop_invariant [OF assms,
        where Q = "\<lambda>s. set (unmatched_secondary_indices s) \<subseteq> set (unmatched_secondary_indices st)"])
    (auto dest: outer_step_secondary_subset)

lemma outer_loop_keeps_assigned:
  assumes "outer_loop ps st = Inr st'" and "consistent st" and "j < length (secondary st)"
    and "sec_Event_ID (secondary st ! j) = Some e"
  shows "sec_Event_ID (secondary st' ! j) = Some e"
proof -
  let ?Q = "\<lambda>s. consistent s \<and> length (secondary s) = length (secondary st) \<and>
                sec_Event_ID (secondary s ! j) = Some e"
  have "?Q st'"
  proof (rule outer_loop_invariant [OF assms(1), where Q = ?Q])
    from assms show "?Q st" by simp
  next
    fix ip s s'
    assume "ip \<in> set ps" and q: "?Q s" and step: "outer_step ip s = Inr s'"
    from q step have "consistent s'" by (auto intro: outer_step_consistent)
    moreover from q step have "length (secondary s') = length (secondary st)"
      by (auto dest: outer_step_length)
    moreover from q assms(3) have "sec_Event_ID (secondary s' ! j) = Some e"
      by (auto intro: outer_step_keeps_assigned [OF step])
    ultimately show "?Q s'" by simp
  qed
  then show ?thesis by simp
qed

section \<open>Which labels leave the unmatched lists\<close>

lemma assigned_from_matched:
  "outer_loop ps st = Inr st' \<Longrightarrow> distinct (unmatched_primary_indices st) \<Longrightarrow>
   j < length (secondary st) \<Longrightarrow> sec_Event_ID (secondary st' ! j) = Some e \<Longrightarrow>
     sec_Event_ID (secondary st ! j) = Some e \<or>
     (\<exists>ip \<in> set ps. e = Event_ID (snd ip) \<and> fst ip \<notin> set (unmatched_primary_indices st'))"
proof (induction ps arbitrary: st)
  case Nil
  then show ?case by simp
next
  case (Cons ip ps)
  from Cons.prems(1) obtain st1 where
    step: "outer_step ip st = Inr st1" and rest: "outer_loop ps st1 = Inr st'"
    by (auto split: sum.splits)
  have len: "length (secondary st1) = length (secondary st)"
    using step by (rule outer_step_length)
  have d1: "distinct (unmatched_primary_indices st1)"
    using step Cons.prems(2) by (rule outer_step_primary_distinct)
  from Cons.prems(3) len have j1: "j < length (secondary st1)" by simp
  from Cons.IH [OF rest d1 j1 Cons.prems(4)] show ?case
  proof
    assume a: "sec_Event_ID (secondary st1 ! j) = Some e"
    from outer_step_cases [OF step] show ?thesis
    proof
      assume "st1 = st"
      with a show ?thesis by simp
    next
      assume "\<exists>k. st1 = assign (fst ip) (snd ip) k st \<and> k < length (secondary st) \<and>
         k \<in> set (unmatched_secondary_indices st) \<and>
         is_match (snd ip) (secondary st ! k) = Inr True"
      then obtain k where st1: "st1 = assign (fst ip) (snd ip) k st" by blast
      show ?thesis
      proof (cases "j = k")
        case True
        with a st1 Cons.prems(3) have e: "e = Event_ID (snd ip)" by (simp add: assign_Event_ID)
        from st1 Cons.prems(2) have "fst ip \<notin> set (unmatched_primary_indices st1)"
          by (simp add: assign_simps remove_if_in_mem)
        with outer_loop_primary_subset [OF rest]
        have "fst ip \<notin> set (unmatched_primary_indices st')" by blast
        with e show ?thesis by auto
      next
        case False
        with a st1 Cons.prems(3) show ?thesis by (simp add: assign_Event_ID)
      qed
    qed
  next
    assume "\<exists>ip \<in> set ps. e = Event_ID (snd ip) \<and> fst ip \<notin> set (unmatched_primary_indices st')"
    then show ?thesis by auto
  qed
qed

lemma matched_is_assigned:
  "outer_loop ps st = Inr st' \<Longrightarrow> consistent st \<Longrightarrow> distinct (map fst ps) \<Longrightarrow>
   (i, p) \<in> set ps \<Longrightarrow> i \<in> set (unmatched_primary_indices st) \<Longrightarrow>
   i \<notin> set (unmatched_primary_indices st') \<Longrightarrow>
     \<exists>j < length (secondary st). sec_Event_ID (secondary st' ! j) = Some (Event_ID p)"
proof (induction ps arbitrary: st)
  case Nil
  then show ?case by simp
next
  case (Cons ip ps)
  from Cons.prems(1) obtain st1 where
    step: "outer_step ip st = Inr st1" and rest: "outer_loop ps st1 = Inr st'"
    by (auto split: sum.splits)
  have len: "length (secondary st1) = length (secondary st)"
    using step by (rule outer_step_length)
  have c1: "consistent st1" using Cons.prems(2) step by (rule outer_step_consistent)
  from Cons.prems(3) have dps: "distinct (map fst ps)" and notin: "fst ip \<notin> fst ` set ps"
    by simp_all
  show ?case
  proof (cases "(i, p) = ip")
    case True
    from outer_step_cases [OF step] show ?thesis
    proof
      assume "st1 = st"
      with Cons.prems(5) have "i \<in> set (unmatched_primary_indices st1)" by simp
      with rest have "i \<in> set (unmatched_primary_indices st')"
      proof (rule never_matching_label_stays)
        fix q and s :: secondary_row
        assume "(i, q) \<in> set ps"
        then have "i \<in> fst ` set ps" by force
        moreover from True have "fst ip = i" by auto
        ultimately show "is_match q s \<noteq> Inr True" using notin by simp
      qed
      with Cons.prems(6) show ?thesis by simp
    next
      assume "\<exists>k. st1 = assign (fst ip) (snd ip) k st \<and> k < length (secondary st) \<and>
         k \<in> set (unmatched_secondary_indices st) \<and>
         is_match (snd ip) (secondary st ! k) = Inr True"
      then obtain k where st1: "st1 = assign (fst ip) (snd ip) k st"
        and k: "k < length (secondary st)" by blast
      from st1 k True have "sec_Event_ID (secondary st1 ! k) = Some (Event_ID p)"
        by (auto simp: assign_Event_ID)
      with rest c1 k len have "sec_Event_ID (secondary st' ! k) = Some (Event_ID p)"
        by (auto intro: outer_loop_keeps_assigned)
      with k show ?thesis by blast
    qed
  next
    case False
    with Cons.prems(4) have mem: "(i, p) \<in> set ps" by auto
    then have "i \<in> fst ` set ps" by force
    have ne: "i \<noteq> fst ip"
    proof
      assume "i = fst ip"
      with \<open>i \<in> fst ` set ps\<close> notin show False by simp
    qed
    have "i \<in> set (unmatched_primary_indices st1)"
      using outer_step_cases [OF step] Cons.prems(5) ne
      by (auto simp: assign_simps remove_if_in_other)
    from Cons.IH [OF rest c1 dps mem this Cons.prems(6)] len show ?thesis by simp
  qed
qed

section \<open>Uniqueness of the assigned identifiers\<close>

lemma assign_unique_ids:
  assumes "unique_ids (secondary st)" and "unused_id (secondary st) (Event_ID p)"
  shows "unique_ids (secondary (assign i p k st))"
  unfolding unique_ids_def
proof (intro allI impI)
  fix j1 j2
  assume "j1 < length (secondary (assign i p k st))" "j2 < length (secondary (assign i p k st))"
  then have j: "j1 < length (secondary st)" "j2 < length (secondary st)"
    by (simp_all add: assign_simps)
  assume h: "sec_Event_ID (secondary (assign i p k st) ! j1) \<noteq> None \<and>
        sec_Event_ID (secondary (assign i p k st) ! j1) =
        sec_Event_ID (secondary (assign i p k st) ! j2)"
  from assms(2) j have u: "sec_Event_ID (secondary st ! j1) \<noteq> Some (Event_ID p)"
    "sec_Event_ID (secondary st ! j2) \<noteq> Some (Event_ID p)"
    by (simp_all add: unused_id_def)
  show "j1 = j2"
  proof (cases "j1 = k \<or> j2 = k")
    case True
    with h j u show ?thesis by (auto simp: assign_Event_ID split: if_splits)
  next
    case False
    with j have e1: "sec_Event_ID (secondary (assign i p k st) ! j1) =
          sec_Event_ID (secondary st ! j1)"
      and e2: "sec_Event_ID (secondary (assign i p k st) ! j2) =
          sec_Event_ID (secondary st ! j2)"
      by (simp_all add: assign_Event_ID)
    from h have "sec_Event_ID (secondary st ! j1) \<noteq> None \<and>
        sec_Event_ID (secondary st ! j1) = sec_Event_ID (secondary st ! j2)"
      unfolding e1 e2 .
    with assms(1) j show ?thesis unfolding unique_ids_def by blast
  qed
qed

lemma assign_unused_id:
  "unused_id (secondary st) e \<Longrightarrow> e \<noteq> Event_ID p \<Longrightarrow>
     unused_id (secondary (assign i p k st)) e"
  by (auto simp: unused_id_def assign_simps assign_Event_ID)

lemma outer_loop_unique_ids:
  "outer_loop ps st = Inr st' \<Longrightarrow> distinct (map (\<lambda>ip. Event_ID (snd ip)) ps) \<Longrightarrow>
   unique_ids (secondary st) \<Longrightarrow>
   (\<forall>ip \<in> set ps. unused_id (secondary st) (Event_ID (snd ip))) \<Longrightarrow>
     unique_ids (secondary st')"
proof (induction ps arbitrary: st)
  case Nil
  then show ?case by simp
next
  case (Cons ip ps)
  from Cons.prems(1) obtain st1 where
    step: "outer_step ip st = Inr st1" and rest: "outer_loop ps st1 = Inr st'"
    by (auto split: sum.splits)
  from Cons.prems(2) have dps: "distinct (map (\<lambda>ip. Event_ID (snd ip)) ps)"
    and nin: "Event_ID (snd ip) \<notin> (\<lambda>ip. Event_ID (snd ip)) ` set ps" by simp_all
  have fresh: "\<forall>q \<in> set ps. Event_ID (snd q) \<noteq> Event_ID (snd ip)"
  proof (intro ballI notI)
    fix q
    assume "q \<in> set ps" and "Event_ID (snd q) = Event_ID (snd ip)"
    then have "Event_ID (snd ip) \<in> (\<lambda>ip. Event_ID (snd ip)) ` set ps"
      by (intro image_eqI [where x = q]) simp_all
    with nin show False by simp
  qed
  from outer_step_cases [OF step] have
    "unique_ids (secondary st1) \<and> (\<forall>q \<in> set ps. unused_id (secondary st1) (Event_ID (snd q)))"
  proof
    assume "st1 = st"
    with Cons.prems(3,4) show ?thesis by simp
  next
    assume "\<exists>k. st1 = assign (fst ip) (snd ip) k st \<and> k < length (secondary st) \<and>
         k \<in> set (unmatched_secondary_indices st) \<and>
         is_match (snd ip) (secondary st ! k) = Inr True"
    then obtain k where st1: "st1 = assign (fst ip) (snd ip) k st" by blast
    from Cons.prems(3,4) have "unique_ids (secondary st1)"
      unfolding st1 by (intro assign_unique_ids) simp_all
    moreover from Cons.prems(4) fresh
    have "\<forall>q \<in> set ps. unused_id (secondary st1) (Event_ID (snd q))"
      unfolding st1 by (auto intro: assign_unused_id)
    ultimately show ?thesis by simp
  qed
  with Cons.IH [OF rest dps] show ?case by simp
qed

section \<open>From the final state to the returned frames\<close>

lemma match_data_Inr:
  assumes "match_data primary secondary0 = Inr r"
  shows "\<exists>st. outer_loop (enumerate 0 primary) (initial_state primary secondary0) = Inr st \<and>
     res_primary r = primary \<and>
     res_secondary r = map add_secondary_col (secondary st) \<and>
     missing_events r = loc primary (unmatched_primary_indices st) \<and>
     missing_rewards r =
       map (\<lambda>(j, s). (j, drop_Event_ID s)) (loc (secondary st) (unmatched_secondary_indices st))"
  using assms by (auto simp: match_data_def run_loops_def split: sum.splits)

lemma input_columns_add_Event_ID: "input_columns (add_Event_ID s) = s"
  by (simp add: input_columns_def add_Event_ID_def)

lemma initial_state_simps:
  "length (secondary (initial_state primary secondary0)) = length secondary0"
  "unmatched_primary_indices (initial_state primary secondary0) = [0 ..< length primary]"
  "unmatched_secondary_indices (initial_state primary secondary0) = [0 ..< length secondary0]"
  "j < length secondary0 \<Longrightarrow>
     sec_Event_ID (secondary (initial_state primary secondary0) ! j) = None"
  "map input_columns (secondary (initial_state primary secondary0)) = secondary0"
  by (simp_all add: initial_state_def comp_def input_columns_add_Event_ID)
    (simp add: add_Event_ID_def)

lemma initial_state_consistent: "consistent (initial_state primary secondary0)"
  by (simp add: consistent_def initial_state_simps)

lemma initial_state_unique_ids: "unique_ids (secondary (initial_state primary secondary0))"
  by (simp add: unique_ids_def initial_state_simps)

lemma initial_state_unused_id: "unused_id (secondary (initial_state primary secondary0)) e"
  by (simp add: unused_id_def initial_state_simps)

lemma add_secondary_col_simps:
  "sec_Event_ID (add_secondary_col s) = sec_Event_ID s"
  "secondary_col (add_secondary_col s) = (sec_Event_ID s \<noteq> None)"
  "input_columns (add_secondary_col s) = input_columns s"
  "drop_Event_ID s = input_columns s"
  by (simp_all add: add_secondary_col_def input_columns_def drop_Event_ID_def)

lemma map_fst_loc: "map fst (loc frame labels) = labels"
  by (simp add: loc_def comp_def)

lemma map_Event_ID_enumerate:
  "map (\<lambda>ip. Event_ID (snd ip)) (enumerate n xs) = map Event_ID xs"
  by (induction xs arbitrary: n) simp_all

lemma demo_run: "match_data demo_primary demo_secondary = Inr demo_result"
  by code_simp

lemma demo_distinct: "distinct (map Event_ID demo_primary)"
  by code_simp

lemma map_fst_enumerate_0: "map fst (enumerate 0 xs) = [0 ..< length xs]"
  by (simp add: enumerate_eq_zip)

lemma demo_missing:
  "map fst (missing_events demo_result) = [2]"
  "map fst (missing_rewards demo_result) = [0, 2]"
  "length demo_primary = 3" "length demo_secondary = 4"
  by code_simp+

section \<open>First fit\<close>

lemma enumerate_split:
  assumes "j < length xs"
  shows "enumerate n xs =
     enumerate n (take j xs) @ (n + j, xs ! j) # enumerate (Suc (n + j)) (drop (Suc j) xs)"
proof -
  have "enumerate n xs = enumerate n (take j xs @ xs ! j # drop (Suc j) xs)"
    using id_take_nth_drop [OF assms] by simp
  also have "\<dots> = enumerate n (take j xs) @ (n + j, xs ! j) # enumerate (Suc (n + j)) (drop (Suc j) xs)"
    using assms by (simp add: enumerate_append_eq min_def)
  finally show ?thesis .
qed

lemma in_enumerate_take:
  "c \<in> set (enumerate 0 (take j xs)) \<Longrightarrow> j \<le> length xs \<Longrightarrow> fst c < j \<and> snd c = xs ! fst c"
  by (auto simp: in_set_enumerate_eq)

lemma candidates_initial:
  "candidates (initial_state primary secondary0) = enumerate 0 (map add_Event_ID secondary0)"
proof -
  have "\<forall>c \<in> set (enumerate 0 (map add_Event_ID secondary0)).
          (\<lambda>(j, s). j \<in> set [0 ..< length secondary0]) c"
    by (auto simp: in_set_enumerate_eq)
  then show ?thesis
    unfolding candidates_def initial_state_def by (simp only: match_state.simps filter_True)
qed

lemma outer_loop_no_match:
  "(\<forall>ip \<in> set ps. scan (snd ip) (candidates st) = Inr None) \<Longrightarrow> outer_loop ps st = Inr st"
  by (induction ps) (simp_all add: outer_step_def)

lemma scan_first_in_frame:
  assumes "j < length xs" and "is_match p (xs ! j) = Inr True"
    and "\<forall>k < j. is_match p (xs ! k) = Inr False"
  shows "scan p (enumerate 0 xs) = Inr (Some j)"
proof -
  have "\<forall>c \<in> set (enumerate 0 (take j xs)). is_match p (snd c) = Inr False"
  proof
    fix c
    assume "c \<in> set (enumerate 0 (take j xs))"
    with assms(1) have "fst c < j \<and> snd c = xs ! fst c" by (intro in_enumerate_take) simp_all
    with assms(3) show "is_match p (snd c) = Inr False" by simp
  qed
  then have "scan p (enumerate 0 (take j xs) @ (j, xs ! j) # enumerate (Suc j) (drop (Suc j) xs)) =
      Inr (Some j)"
    using assms(2) by (rule scan_first)
  with enumerate_split [OF assms(1), of 0] show ?thesis by simp
qed

text \<open>One payout, several rewards that fit it: the first reward in the frame gets it.\<close>

lemma first_primary_wins:
  assumes i: "i < length primary" and m: "is_match (primary ! i) s = Inr True"
    and before: "\<forall>k < i. is_match (primary ! k) s = Inr False"
  shows "run_loops primary [s] =
     Inr (assign i (primary ! i) 0 (initial_state primary [s]))"
proof -
  let ?st0 = "initial_state primary [s]"
  let ?st1 = "assign i (primary ! i) 0 ?st0"
  let ?pre = "enumerate 0 (take i primary)"
  let ?post = "enumerate (Suc i) (drop (Suc i) primary)"
  have c0: "candidates ?st0 = [(0, add_Event_ID s)]" by (simp add: candidates_initial)
  have "\<forall>ip \<in> set ?pre. scan (snd ip) (candidates ?st0) = Inr None"
  proof
    fix ip
    assume "ip \<in> set ?pre"
    with i have "fst ip < i \<and> snd ip = primary ! fst ip" by (intro in_enumerate_take) simp_all
    with before have "is_match (snd ip) s = Inr False" by simp
    then show "scan (snd ip) (candidates ?st0) = Inr None"
      by (simp add: c0 is_match_add_Event_ID)
  qed
  then have pre: "outer_loop ?pre ?st0 = Inr ?st0" by (rule outer_loop_no_match)
  have step: "outer_step (i, primary ! i) ?st0 = Inr ?st1"
    using m by (simp add: outer_step_def c0 is_match_add_Event_ID)
  have "candidates ?st1 = []"
    by (simp add: candidates_def assign_def initial_state_def remove_if_in_def)
  then have post: "outer_loop ?post ?st1 = Inr ?st1"
    by (intro outer_loop_no_match) simp
  have "outer_loop (?pre @ (i, primary ! i) # ?post) ?st0 = Inr ?st1"
    by (simp add: outer_loop_append pre step post)
  with enumerate_split [OF i, of 0] show ?thesis by (simp add: run_loops_def)
qed

text \<open>One reward, several payouts that fit it: it gets the first payout in the frame.\<close>

lemma first_secondary_chosen:
  assumes j: "j < length secondary0" and m: "is_match p (secondary0 ! j) = Inr True"
    and before: "\<forall>k < j. is_match p (secondary0 ! k) = Inr False"
    and run: "run_loops (p # rest) secondary0 = Inr st"
  shows "sec_Event_ID (secondary st ! j) = Some (Event_ID p) \<and>
         0 \<notin> set (unmatched_primary_indices st) \<and>
         j \<notin> set (unmatched_secondary_indices st) \<and>
         length (secondary st) = length secondary0"
proof -
  let ?st0 = "initial_state (p # rest) secondary0"
  let ?st1 = "assign 0 p j ?st0"
  let ?xs = "map add_Event_ID secondary0"
  have "scan p (enumerate 0 ?xs) = Inr (Some j)"
    using j m before by (intro scan_first_in_frame) (simp_all add: is_match_add_Event_ID)
  then have step: "outer_step (0, p) ?st0 = Inr ?st1"
    by (simp add: outer_step_def candidates_initial)
  with run have rest: "outer_loop (enumerate (Suc 0) rest) ?st1 = Inr st"
    by (simp add: run_loops_def)
  have c1: "consistent ?st1" using initial_state_consistent by (rule assign_consistent)
  have l1: "length (secondary ?st1) = length secondary0"
    by (simp add: assign_simps initial_state_simps)
  have a1: "sec_Event_ID (secondary ?st1 ! j) = Some (Event_ID p)"
    using j by (simp add: assign_Event_ID initial_state_simps)
  have a: "sec_Event_ID (secondary st ! j) = Some (Event_ID p)"
    using rest c1 _ a1 by (rule outer_loop_keeps_assigned) (simp add: l1 j)
  have l: "length (secondary st) = length secondary0"
    using outer_loop_length [OF rest] l1 by simp
  have "0 \<notin> set (unmatched_primary_indices ?st1)"
    by (simp add: assign_simps initial_state_simps remove_if_in_mem)
  with outer_loop_primary_subset [OF rest]
  have b: "0 \<notin> set (unmatched_primary_indices st)" by blast
  have "consistent st" using rest c1 by (rule outer_loop_consistent)
  with a j l have c: "j \<notin> set (unmatched_secondary_indices st)"
    by (auto simp: consistent_def)
  from a b c l show ?thesis by simp
qed

lemma twin_rewards_facts:
  "(0::nat) < length twin_rewards"
  "is_match (twin_rewards ! 0) (vip_payout 1) = Inr True"
  "is_match (twin_rewards ! 1) (vip_payout 1) = Inr True"
  "Event_ID (twin_rewards ! 0) = ''E7''"
  "Event_ID (twin_rewards ! 1) = ''E8''"
  "length twin_rewards = 2"
  by code_simp+

lemma three_payouts_facts:
  "(1::nat) < length three_payouts"
  "is_match vip (three_payouts ! 0) = Inr False"
  "is_match vip (three_payouts ! 1) = Inr True"
  "is_match vip (three_payouts ! 2) = Inr True"
  "Event_ID vip = ''E7''"
  "list_all suffix_is_text [vip]"
  "distinct (map Event_ID [vip])"
  "length three_payouts = 3"
  by code_simp+

lemma first_fit_two_frames:
  "(i < length primary \<and> is_match (primary ! i) s = Inr True \<and>
    (\<forall>k < i. is_match (primary ! k) s = Inr False) \<longrightarrow>
      (\<exists>r. match_data primary [s] = Inr r \<and>
           map sec_Event_ID (res_secondary r) = [Some (Event_ID (primary ! i))] \<and>
           map fst (missing_events r) = remove1 i [0 ..< length primary] \<and>
           missing_rewards r = [] \<and>
           (\<forall>k < length primary. k \<noteq> i \<longrightarrow> (k, primary ! k) \<in> set (missing_events r)))) \<and>
   (j < length secondary_frame \<and> is_match p (secondary_frame ! j) = Inr True \<and>
    (\<forall>k < j. is_match p (secondary_frame ! k) = Inr False) \<and>
    match_data (p # rest) secondary_frame = Inr r' \<longrightarrow>
      sec_Event_ID (res_secondary r' ! j) = Some (Event_ID p) \<and>
      0 \<notin> set (map fst (missing_events r')) \<and>
      j \<notin> set (map fst (missing_rewards r')) \<and>
      (distinct (map Event_ID (p # rest)) \<longrightarrow>
         (\<forall>k < length secondary_frame. k \<noteq> j \<longrightarrow>
            sec_Event_ID (res_secondary r' ! k) \<noteq> Some (Event_ID p))))"
proof (intro conjI impI; (elim conjE)?)
  assume i: "i < length primary" and m: "is_match (primary ! i) s = Inr True"
    and before: "\<forall>k < i. is_match (primary ! k) s = Inr False"
  let ?st1 = "assign i (primary ! i) 0 (initial_state primary [s])"
  let ?r = "\<lparr> res_primary = primary,
              res_secondary = map add_secondary_col (secondary ?st1),
              missing_events = loc primary (unmatched_primary_indices ?st1),
              missing_rewards =
                map (\<lambda>(j, s). (j, drop_Event_ID s))
                  (loc (secondary ?st1) (unmatched_secondary_indices ?st1)) \<rparr>"
  have r: "match_data primary [s] = Inr ?r"
    by (simp add: match_data_def first_primary_wins [OF i m before])
  have up: "unmatched_primary_indices ?st1 = remove1 i [0 ..< length primary]"
    using i by (simp add: assign_def initial_state_def remove_if_in_def)
  have a: "map sec_Event_ID (res_secondary ?r) = [Some (Event_ID (primary ! i))]"
    by (simp add: assign_def initial_state_def add_secondary_col_simps)
  have b: "map fst (missing_events ?r) = remove1 i [0 ..< length primary]"
    by (simp add: map_fst_loc up)
  have c: "missing_rewards ?r = []"
    by (simp add: assign_def initial_state_def remove_if_in_def loc_def)
  have d: "\<forall>k < length primary. k \<noteq> i \<longrightarrow> (k, primary ! k) \<in> set (missing_events ?r)"
    by (auto simp: loc_def up)
  show "\<exists>r. match_data primary [s] = Inr r \<and>
           map sec_Event_ID (res_secondary r) = [Some (Event_ID (primary ! i))] \<and>
           map fst (missing_events r) = remove1 i [0 ..< length primary] \<and>
           missing_rewards r = [] \<and>
           (\<forall>k < length primary. k \<noteq> i \<longrightarrow> (k, primary ! k) \<in> set (missing_events r))"
    by (intro exI [of _ ?r] conjI r a b c d)
next
  assume j: "j < length secondary_frame" and m: "is_match p (secondary_frame ! j) = Inr True"
    and before: "\<forall>k < j. is_match p (secondary_frame ! k) = Inr False"
    and res: "match_data (p # rest) secondary_frame = Inr r'"
  from match_data_Inr [OF res] obtain st where
    run: "outer_loop (enumerate 0 (p # rest)) (initial_state (p # rest) secondary_frame) = Inr st"
    and sec: "res_secondary r' = map add_secondary_col (secondary st)"
    and ev: "missing_events r' = loc (p # rest) (unmatched_primary_indices st)"
    and rw: "missing_rewards r' =
       map (\<lambda>(j, s). (j, drop_Event_ID s)) (loc (secondary st) (unmatched_secondary_indices st))"
    by blast
  from run have "run_loops (p # rest) secondary_frame = Inr st" by (simp add: run_loops_def)
  from first_secondary_chosen [OF j m before this]
  have a: "sec_Event_ID (secondary st ! j) = Some (Event_ID p)"
    and b: "0 \<notin> set (unmatched_primary_indices st)"
    and c: "j \<notin> set (unmatched_secondary_indices st)"
    and l: "length (secondary st) = length secondary_frame" by simp_all
  have id: "sec_Event_ID (res_secondary r' ! k) = sec_Event_ID (secondary st ! k)"
    if "k < length secondary_frame" for k
    using that l by (simp add: sec add_secondary_col_simps)
  show "sec_Event_ID (res_secondary r' ! j) = Some (Event_ID p)"
    using a j by (simp add: id)
  show "0 \<notin> set (map fst (missing_events r'))"
    using b by (simp add: ev map_fst_loc)
  show "j \<notin> set (map fst (missing_rewards r'))"
    using c by (simp add: rw loc_def comp_def)
  show "\<forall>k < length secondary_frame. k \<noteq> j \<longrightarrow>
            sec_Event_ID (res_secondary r' ! k) \<noteq> Some (Event_ID p)"
    if d: "distinct (map Event_ID (p # rest))"
  proof (intro allI impI)
    fix k
    assume k: "k < length secondary_frame" and ne: "k \<noteq> j"
    have "distinct (map (\<lambda>ip. Event_ID (snd ip)) (enumerate 0 (p # rest)))"
      using d by (simp only: map_Event_ID_enumerate)
    with run have u: "unique_ids (secondary st)"
      by (rule outer_loop_unique_ids)
        (simp_all add: initial_state_unique_ids initial_state_unused_id)
    show "sec_Event_ID (res_secondary r' ! k) \<noteq> Some (Event_ID p)"
    proof
      assume "sec_Event_ID (res_secondary r' ! k) = Some (Event_ID p)"
      with k have "sec_Event_ID (secondary st ! k) = Some (Event_ID p)" by (simp add: id)
      with a have "sec_Event_ID (secondary st ! j) \<noteq> None \<and>
          sec_Event_ID (secondary st ! j) = sec_Event_ID (secondary st ! k)" by simp
      moreover from j k l have "j < length (secondary st)" "k < length (secondary st)"
        by simp_all
      ultimately have "j = k"
        using u [unfolded unique_ids_def, rule_format, of j k] by blast
      with ne show False by simp
    qed
  qed
qed

section \<open>The order of the assignments\<close>

lemma is_match_same_input_columns:
  "input_columns s = input_columns s' \<Longrightarrow> is_match p s = is_match p s'"
  by (simp add: is_match_def join_pred_def window_pred_def amount_pred_def vip_pred_def
      input_columns_def split: option.splits cell.splits)

lemma outer_loop_is_match:
  assumes "outer_loop ps st = Inr st'" and "k < length (secondary st)"
  shows "is_match p (secondary st' ! k) = is_match p (secondary st ! k)"
proof -
  have "map input_columns (secondary st') ! k = map input_columns (secondary st) ! k"
    using outer_loop_input_columns [OF assms(1)] by simp
  with assms(2) outer_loop_length [OF assms(1)]
  have "input_columns (secondary st' ! k) = input_columns (secondary st ! k)" by simp
  then show ?thesis by (rule is_match_same_input_columns)
qed

lemma scan_None_all:
  "scan p cs = Inr None \<Longrightarrow> \<forall>c \<in> set cs. is_match p (snd c) = Inr False"
proof (induction cs)
  case Nil
  show ?case by simp
next
  case (Cons c cs)
  obtain j s where c: "c = (j, s)" by (cases c)
  show ?case
  proof (cases "is_match p s")
    case (Inl e)
    with Cons.prems c show ?thesis by simp
  next
    case (Inr b)
    with Cons.prems c have b: "b = False" by (cases b) simp_all
    with Inr Cons.prems c have "scan p cs = Inr None" by simp
    with Cons.IH Inr b c show ?thesis by simp
  qed
qed

lemma scan_filter_enumerate_first:
  "scan p (filter (\<lambda>(j, s). j \<in> A) (enumerate n xs)) = Inr (Some j) \<Longrightarrow>
   n \<le> k \<Longrightarrow> k < j \<Longrightarrow> k \<in> A \<Longrightarrow> is_match p (xs ! (k - n)) = Inr False"
proof (induction xs arbitrary: n)
  case Nil
  then show ?case by simp
next
  case (Cons x xs)
  show ?case
  proof (cases "n \<in> A")
    case True
    show ?thesis
    proof (cases "is_match p x")
      case (Inl e)
      with Cons.prems(1) True show ?thesis by simp
    next
      case (Inr b)
      show ?thesis
      proof (cases b)
        case True
        with Inr Cons.prems(1) \<open>n \<in> A\<close> have "j = n" by simp
        with Cons.prems(2,3) show ?thesis by simp
      next
        case False
        with Inr Cons.prems(1) \<open>n \<in> A\<close>
        have rest: "scan p (filter (\<lambda>(j, s). j \<in> A) (enumerate (Suc n) xs)) = Inr (Some j)"
          by simp
        show ?thesis
        proof (cases "k = n")
          case True
          with Inr False show ?thesis by simp
        next
          case False
          with Cons.prems(2) have "Suc n \<le> k" by simp
          from Cons.IH [OF rest this Cons.prems(3,4)] \<open>Suc n \<le> k\<close> show ?thesis
            by (simp add: nth_Cons')
        qed
      qed
    qed
  next
    case False
    with Cons.prems(1)
    have rest: "scan p (filter (\<lambda>(j, s). j \<in> A) (enumerate (Suc n) xs)) = Inr (Some j)"
      by simp
    from False Cons.prems(4) have "k \<noteq> n" by auto
    with Cons.prems(2) have "Suc n \<le> k" by simp
    from Cons.IH [OF rest this Cons.prems(3,4)] \<open>Suc n \<le> k\<close> show ?thesis
      by (simp add: nth_Cons')
  qed
qed

lemma scan_candidates_first:
  assumes "scan p (candidates st) = Inr (Some j)" and "k < j"
    and "k \<in> set (unmatched_secondary_indices st)"
  shows "is_match p (secondary st ! k) = Inr False"
  using scan_filter_enumerate_first [OF assms(1) [unfolded candidates_def] _ assms(2,3)]
  by simp

text \<open>An identifier in the final frame was there at the start or belongs to a processed row.\<close>

lemma assigned_id_origin:
  assumes "outer_loop ps st = Inr st'" and "j < length (secondary st)"
    and "sec_Event_ID (secondary st' ! j) = Some e"
  shows "sec_Event_ID (secondary st ! j) = Some e \<or> e \<in> (\<lambda>ip. Event_ID (snd ip)) ` set ps"
proof -
  let ?Q = "\<lambda>s. length (secondary s) = length (secondary st) \<and>
     (sec_Event_ID (secondary s ! j) = Some e \<longrightarrow>
        sec_Event_ID (secondary st ! j) = Some e \<or> e \<in> (\<lambda>ip. Event_ID (snd ip)) ` set ps)"
  have "?Q st'"
  proof (rule outer_loop_invariant [OF assms(1), where Q = ?Q])
    show "?Q st" by simp
  next
    fix ip s s'
    assume ip: "ip \<in> set ps" and q: "?Q s" and step: "outer_step ip s = Inr s'"
    from outer_step_cases [OF step] show "?Q s'"
    proof
      assume "s' = s"
      with q show ?thesis by simp
    next
      assume "\<exists>k. s' = assign (fst ip) (snd ip) k s \<and> k < length (secondary s) \<and>
         k \<in> set (unmatched_secondary_indices s) \<and>
         is_match (snd ip) (secondary s ! k) = Inr True"
      then obtain k where s': "s' = assign (fst ip) (snd ip) k s" by blast
      from q assms(2) have jl: "j < length (secondary s)" by simp
      show ?thesis
      proof (cases "j = k")
        case True
        from ip have "Event_ID (snd ip) \<in> (\<lambda>ip. Event_ID (snd ip)) ` set ps" by (rule imageI)
        with True s' jl q show ?thesis by (auto simp: assign_simps assign_Event_ID)
      next
        case False
        with s' jl q show ?thesis by (simp add: assign_simps assign_Event_ID)
      qed
    qed
  qed
  with assms(3) show ?thesis by simp
qed

lemma outer_loop_split:
  assumes "outer_loop (pre @ ip # post) st = Inr st'"
  shows "\<exists>sa sb. outer_loop pre st = Inr sa \<and> outer_step ip sa = Inr sb \<and>
           outer_loop post sb = Inr st'"
  using assms by (auto simp: outer_loop_append split: sum.splits)

lemma outer_step_assigns:
  assumes "outer_step (i, p) sa = Inr sb" and "j < length (secondary sa)"
    and "sec_Event_ID (secondary sa ! j) \<noteq> Some e"
    and "sec_Event_ID (secondary sb ! j) = Some e"
  shows "scan p (candidates sa) = Inr (Some j)"
proof (cases "scan p (candidates sa)")
  case (Inl x)
  with assms(1) show ?thesis by (simp add: outer_step_def)
next
  case (Inr r)
  show ?thesis
  proof (cases r)
    case None
    with Inr assms(1) have "sb = sa" by (simp add: outer_step_def)
    with assms(3,4) show ?thesis by simp
  next
    case (Some j0)
    with Inr assms(1) have sb: "sb = assign i p j0 sa" by (simp add: outer_step_def)
    have "j0 = j"
    proof (rule ccontr)
      assume "j0 \<noteq> j"
      with sb assms(2) have "sec_Event_ID (secondary sb ! j) = sec_Event_ID (secondary sa ! j)"
        by (simp add: assign_Event_ID)
      with assms(3,4) show False by simp
    qed
    with Inr Some show ?thesis by simp
  qed
qed

text \<open>
  A payout that fits a reward and stands before the payout the reward got was taken
  before the reward's turn.
\<close>

lemma fitting_payout_before_is_taken:
  assumes run: "outer_loop (pre @ (i, p) # post) st = Inr st'"
    and cons: "consistent st"
    and d: "distinct (map (\<lambda>ip. Event_ID (snd ip)) (pre @ (i, p) # post))"
    and unused: "unused_id (secondary st) (Event_ID p)"
    and j: "j < length (secondary st)"
    and a: "sec_Event_ID (secondary st' ! j) = Some (Event_ID p)"
    and k: "k < j" and m: "is_match p (secondary st ! k) = Inr True"
  shows "sec_Event_ID (secondary st ! k) \<noteq> None \<or>
     (\<exists>ip' \<in> set pre. sec_Event_ID (secondary st' ! k) = Some (Event_ID (snd ip')))"
proof -
  from outer_loop_split [OF run] obtain sa sb where
    pre: "outer_loop pre st = Inr sa" and step: "outer_step (i, p) sa = Inr sb"
    and post: "outer_loop post sb = Inr st'" by blast
  have la: "length (secondary sa) = length (secondary st)" using pre by (rule outer_loop_length)
  have lb: "length (secondary sb) = length (secondary sa)" using step by (rule outer_step_length)
  have ca: "consistent sa" using pre cons by (rule outer_loop_consistent)
  from d have np: "Event_ID p \<notin> (\<lambda>ip. Event_ID (snd ip)) ` set pre"
    and nq: "Event_ID p \<notin> (\<lambda>ip. Event_ID (snd ip)) ` set post" by auto
  from assigned_id_origin [OF post _ a] j la lb nq
  have b1: "sec_Event_ID (secondary sb ! j) = Some (Event_ID p)" by simp
  have a1: "sec_Event_ID (secondary sa ! j) \<noteq> Some (Event_ID p)"
  proof
    assume "sec_Event_ID (secondary sa ! j) = Some (Event_ID p)"
    from assigned_id_origin [OF pre j this] np
    have "sec_Event_ID (secondary st ! j) = Some (Event_ID p)" by simp
    with unused j show False by (simp add: unused_id_def)
  qed
  from step _ a1 b1 have sc: "scan p (candidates sa) = Inr (Some j)"
    by (rule outer_step_assigns) (simp add: la j)
  from j k have kl: "k < length (secondary st)" by simp
  from m outer_loop_is_match [OF pre kl, of p]
  have "is_match p (secondary sa ! k) = Inr True" by simp
  with scan_candidates_first [OF sc k] have "k \<notin> set (unmatched_secondary_indices sa)"
    by auto
  with ca kl la have "sec_Event_ID (secondary sa ! k) \<noteq> None" by (simp add: consistent_def)
  then obtain e where e: "sec_Event_ID (secondary sa ! k) = Some e" by auto
  from step post have "outer_loop ((i, p) # post) sa = Inr st'" by simp
  from outer_loop_keeps_assigned [OF this ca _ e] kl la
  have fin: "sec_Event_ID (secondary st' ! k) = Some e" by simp
  from assigned_id_origin [OF pre kl e] show ?thesis
  proof
    assume "sec_Event_ID (secondary st ! k) = Some e"
    then show ?thesis by simp
  next
    assume "e \<in> (\<lambda>ip. Event_ID (snd ip)) ` set pre"
    then obtain ip' where "ip' \<in> set pre" and "e = Event_ID (snd ip')" by auto
    with fin show ?thesis by auto
  qed
qed

text \<open>A reward that fits the payout a later reward got has been matched itself.\<close>

lemma earlier_fitting_reward_is_matched:
  assumes run: "outer_loop (pre @ (i', p') # post) st = Inr st'"
    and cons: "consistent st"
    and du: "distinct (unmatched_primary_indices st)"
    and d: "distinct (map (\<lambda>ip. Event_ID (snd ip)) (pre @ (i', p') # post))"
    and later: "(i, p) \<in> set post"
    and unused: "unused_id (secondary st) (Event_ID p)"
    and j: "j < length (secondary st)"
    and a: "sec_Event_ID (secondary st' ! j) = Some (Event_ID p)"
    and m: "is_match p' (secondary st ! j) = Inr True"
  shows "i' \<notin> set (unmatched_primary_indices st')"
proof -
  from outer_loop_split [OF run] obtain sa sb where
    pre: "outer_loop pre st = Inr sa" and step: "outer_step (i', p') sa = Inr sb"
    and post: "outer_loop post sb = Inr st'" by blast
  have la: "length (secondary sa) = length (secondary st)" using pre by (rule outer_loop_length)
  have ca: "consistent sa" using pre cons by (rule outer_loop_consistent)
  have da: "distinct (unmatched_primary_indices sa)"
    using pre du by (rule outer_loop_primary_distinct)
  from later have "Event_ID p \<in> (\<lambda>ip. Event_ID (snd ip)) ` set post" by force
  with d have np: "Event_ID p \<notin> (\<lambda>ip. Event_ID (snd ip)) ` set pre" by auto
  from step post have tail: "outer_loop ((i', p') # post) sa = Inr st'" by simp
  have none: "sec_Event_ID (secondary sa ! j) = None"
  proof (cases "sec_Event_ID (secondary sa ! j)")
    case None
    then show ?thesis .
  next
    case (Some e)
    from outer_loop_keeps_assigned [OF tail ca _ Some] j la
    have "sec_Event_ID (secondary st' ! j) = Some e" by simp
    with a have "e = Event_ID p" by simp
    with Some assigned_id_origin [OF pre j, of e] np
    have "sec_Event_ID (secondary st ! j) = Some (Event_ID p)" by simp
    with unused j show ?thesis by (simp add: unused_id_def)
  qed
  with ca j la have ju: "j \<in> set (unmatched_secondary_indices sa)" by (simp add: consistent_def)
  with j la have cand: "(j, secondary sa ! j) \<in> set (candidates sa)" by (simp add: in_candidates)
  from m outer_loop_is_match [OF pre j, of p']
  have fit: "is_match p' (secondary sa ! j) = Inr True" by simp
  have "\<exists>j0. sb = assign i' p' j0 sa"
  proof (cases "scan p' (candidates sa)")
    case (Inl x)
    with step show ?thesis by (simp add: outer_step_def)
  next
    case (Inr r)
    show ?thesis
    proof (cases r)
      case None
      with Inr have "scan p' (candidates sa) = Inr None" by simp
      from scan_None_all [OF this] cand have "is_match p' (secondary sa ! j) = Inr False"
        by force
      with fit show ?thesis by simp
    next
      case (Some j0)
      with Inr step show ?thesis by (auto simp: outer_step_def)
    qed
  qed
  then obtain j0 where "sb = assign i' p' j0 sa" by blast
  with da have "i' \<notin> set (unmatched_primary_indices sb)"
    by (simp add: assign_simps remove_if_in_mem)
  with outer_loop_primary_subset [OF post] show ?thesis by blast
qed

lemma initial_state_nth:
  "k < length secondary0 \<Longrightarrow>
     secondary (initial_state primary secondary0) ! k = add_Event_ID (secondary0 ! k)"
  by (simp add: initial_state_def)

lemma order_of_assignments:
  assumes d: "distinct (map Event_ID rewards)" and res: "match_data rewards payouts = Inr r"
    and a: "a < length rewards" and b: "b < length payouts"
    and got: "sec_Event_ID (res_secondary r ! b) = Some (Event_ID (rewards ! a))"
  shows "(\<forall>k < b. is_match (rewards ! a) (payouts ! k) = Inr True \<longrightarrow>
            (\<exists>a' < a. sec_Event_ID (res_secondary r ! k) = Some (Event_ID (rewards ! a')))) \<and>
         (\<forall>a' < a. is_match (rewards ! a') (payouts ! b) = Inr True \<longrightarrow>
            a' \<notin> set (map fst (missing_events r)))"
proof (intro conjI allI impI)
  let ?st0 = "initial_state rewards payouts"
  from match_data_Inr [OF res] obtain st where
    run: "outer_loop (enumerate 0 rewards) ?st0 = Inr st"
    and sec: "res_secondary r = map add_secondary_col (secondary st)"
    and ev: "missing_events r = loc rewards (unmatched_primary_indices st)"
    by blast
  have len: "length (secondary st) = length payouts"
    using outer_loop_length [OF run] by (simp add: initial_state_simps)
  have id: "sec_Event_ID (res_secondary r ! k) = sec_Event_ID (secondary st ! k)"
    if "k < length payouts" for k
    using that len by (simp add: sec add_secondary_col_simps)
  have dd: "distinct (map (\<lambda>ip. Event_ID (snd ip)) (enumerate 0 rewards))"
    using d by (simp only: map_Event_ID_enumerate)
  have b0: "b < length (secondary ?st0)" using b by (simp add: initial_state_simps)
  have got': "sec_Event_ID (secondary st ! b) = Some (Event_ID (rewards ! a))"
    using got b by (simp add: id)
  {
    fix k
    assume k: "k < b" and m: "is_match (rewards ! a) (payouts ! k) = Inr True"
    let ?pre = "enumerate 0 (take a rewards)"
    let ?post = "enumerate (Suc a) (drop (Suc a) rewards)"
    from enumerate_split [OF a, of 0]
    have sp: "enumerate 0 rewards = ?pre @ (a, rewards ! a) # ?post" by simp
    from k b have kl: "k < length payouts" by simp
    have m0: "is_match (rewards ! a) (secondary ?st0 ! k) = Inr True"
      using m kl by (simp add: initial_state_nth is_match_add_Event_ID)
    have "sec_Event_ID (secondary ?st0 ! k) \<noteq> None \<or>
       (\<exists>ip' \<in> set ?pre. sec_Event_ID (secondary st ! k) = Some (Event_ID (snd ip')))"
      using run [unfolded sp] initial_state_consistent dd [unfolded sp]
        initial_state_unused_id b0 got' k m0
      by (rule fitting_payout_before_is_taken)
    with kl obtain ip' where ip': "ip' \<in> set ?pre"
      and e: "sec_Event_ID (secondary st ! k) = Some (Event_ID (snd ip'))"
      by (auto simp: initial_state_simps)
    from ip' a have "fst ip' < a \<and> snd ip' = rewards ! fst ip'"
      by (intro in_enumerate_take) simp_all
    with e kl have "fst ip' < a \<and>
        sec_Event_ID (res_secondary r ! k) = Some (Event_ID (rewards ! fst ip'))"
      by (simp add: id)
    then show "\<exists>a' < a. sec_Event_ID (res_secondary r ! k) = Some (Event_ID (rewards ! a'))"
      by blast
  }
  {
    fix a'
    assume a': "a' < a" and m: "is_match (rewards ! a') (payouts ! b) = Inr True"
    let ?pre = "enumerate 0 (take a' rewards)"
    let ?post = "enumerate (Suc a') (drop (Suc a') rewards)"
    from a' a have al: "a' < length rewards" by simp
    from enumerate_split [OF al, of 0]
    have sp: "enumerate 0 rewards = ?pre @ (a', rewards ! a') # ?post" by simp
    have later: "(a, rewards ! a) \<in> set ?post"
      using a a' by (auto simp: in_set_enumerate_eq)
    have m0: "is_match (rewards ! a') (secondary ?st0 ! b) = Inr True"
      using m b by (simp add: initial_state_nth is_match_add_Event_ID)
    have du: "distinct (unmatched_primary_indices ?st0)" by (simp add: initial_state_simps)
    have "a' \<notin> set (unmatched_primary_indices st)"
      using run [unfolded sp] initial_state_consistent du dd [unfolded sp] later
        initial_state_unused_id b0 got' m0
      by (rule earlier_fitting_reward_is_matched)
    then show "a' \<notin> set (map fst (missing_events r))" by (simp add: ev map_fst_loc)
  }
qed

lemma demo_order_facts:
  "(1::nat) < length demo_primary" "(3::nat) < length demo_secondary"
  "sec_Event_ID (res_secondary demo_result ! 3) = Some (Event_ID (demo_primary ! 1))"
  "is_match (demo_primary ! 1) (demo_secondary ! 1) = Inr True"
  "is_match (demo_primary ! 0) (demo_secondary ! 3) = Inr True"
  "sec_Event_ID (res_secondary demo_result ! 1) = Some (Event_ID (demo_primary ! 0))"
  by code_simp+

section \<open>The first reward that fits a payout\<close>

lemma nth_same_input_columns:
  assumes "map input_columns xs = map input_columns ys" and "k < length ys"
  shows "input_columns (xs ! k) = input_columns (ys ! k)"
proof -
  from assms(1) have "length xs = length ys" by (rule map_eq_imp_length_eq)
  with assms(2) have "map input_columns xs ! k = input_columns (xs ! k)"
    and "map input_columns ys ! k = input_columns (ys ! k)" by simp_all
  with assms(1) show ?thesis by simp
qed

text \<open>A payout that got an identifier during the rounds fits one of the rows processed.\<close>

lemma assigned_by_fitting:
  assumes run: "outer_loop ps st = Inr st'" and j: "j < length (secondary st)"
    and none: "sec_Event_ID (secondary st ! j) = None"
    and some: "sec_Event_ID (secondary st' ! j) \<noteq> None"
  shows "\<exists>ip \<in> set ps. is_match (snd ip) (secondary st ! j) = Inr True"
proof -
  let ?Q = "\<lambda>s. length (secondary s) = length (secondary st) \<and>
     map input_columns (secondary s) = map input_columns (secondary st) \<and>
     (sec_Event_ID (secondary s ! j) \<noteq> None \<longrightarrow>
        (\<exists>ip \<in> set ps. is_match (snd ip) (secondary st ! j) = Inr True))"
  have "?Q st'"
  proof (rule outer_loop_invariant [OF run, where Q = ?Q])
    from none show "?Q st" by simp
  next
    fix ip s s'
    assume ip: "ip \<in> set ps" and q: "?Q s" and step: "outer_step ip s = Inr s'"
    from q have l: "length (secondary s) = length (secondary st)"
      and c: "map input_columns (secondary s) = map input_columns (secondary st)"
      and old: "sec_Event_ID (secondary s ! j) \<noteq> None \<longrightarrow>
        (\<exists>ip \<in> set ps. is_match (snd ip) (secondary st ! j) = Inr True)" by simp_all
    have l': "length (secondary s') = length (secondary st)"
      using outer_step_length [OF step] l by simp
    have c': "map input_columns (secondary s') = map input_columns (secondary st)"
      using outer_step_input_columns [OF step] c by simp
    have "sec_Event_ID (secondary s' ! j) \<noteq> None \<longrightarrow>
        (\<exists>ip \<in> set ps. is_match (snd ip) (secondary st ! j) = Inr True)"
    proof
      assume new: "sec_Event_ID (secondary s' ! j) \<noteq> None"
      from outer_step_cases [OF step]
      show "\<exists>ip \<in> set ps. is_match (snd ip) (secondary st ! j) = Inr True"
      proof
        assume "s' = s"
        with new old show ?thesis by simp
      next
        assume "\<exists>k. s' = assign (fst ip) (snd ip) k s \<and> k < length (secondary s) \<and>
           k \<in> set (unmatched_secondary_indices s) \<and>
           is_match (snd ip) (secondary s ! k) = Inr True"
        then obtain k where s': "s' = assign (fst ip) (snd ip) k s"
          and fit: "is_match (snd ip) (secondary s ! k) = Inr True" by blast
        show ?thesis
        proof (cases "k = j")
          case True
          from nth_same_input_columns [OF c j]
          have "is_match (snd ip) (secondary s ! j) = is_match (snd ip) (secondary st ! j)"
            by (rule is_match_same_input_columns)
          with fit True have "is_match (snd ip) (secondary st ! j) = Inr True" by simp
          with ip show ?thesis by blast
        next
          case False
          with s' j l have "sec_Event_ID (secondary s' ! j) = sec_Event_ID (secondary s ! j)"
            by (simp add: assign_Event_ID)
          with new old show ?thesis by simp
        qed
      qed
    qed
    with l' c' show "?Q s'" by simp
  qed
  with some show ?thesis by simp
qed

text \<open>A row that fits none of the payouts still available stays unmatched.\<close>

lemma row_without_available_fit_stays:
  assumes run: "outer_loop ps st = Inr st'"
    and b: "b \<in> set (unmatched_primary_indices st)"
    and nofit: "\<And>p k. (b, p) \<in> set ps \<Longrightarrow> k \<in> set (unmatched_secondary_indices st) \<Longrightarrow>
        k < length (secondary st) \<Longrightarrow> is_match p (secondary st ! k) \<noteq> Inr True"
  shows "b \<in> set (unmatched_primary_indices st')"
proof -
  let ?Q = "\<lambda>s. b \<in> set (unmatched_primary_indices s) \<and>
     set (unmatched_secondary_indices s) \<subseteq> set (unmatched_secondary_indices st) \<and>
     length (secondary s) = length (secondary st) \<and>
     map input_columns (secondary s) = map input_columns (secondary st)"
  have "?Q st'"
  proof (rule outer_loop_invariant [OF run, where Q = ?Q])
    from b show "?Q st" by simp
  next
    fix ip s s'
    assume ip: "ip \<in> set ps" and q: "?Q s" and step: "outer_step ip s = Inr s'"
    from q have bs: "b \<in> set (unmatched_primary_indices s)"
      and sub: "set (unmatched_secondary_indices s) \<subseteq> set (unmatched_secondary_indices st)"
      and l: "length (secondary s) = length (secondary st)"
      and c: "map input_columns (secondary s) = map input_columns (secondary st)" by simp_all
    have sub': "set (unmatched_secondary_indices s') \<subseteq> set (unmatched_secondary_indices st)"
      using outer_step_secondary_subset [OF step] sub by blast
    have l': "length (secondary s') = length (secondary st)"
      using outer_step_length [OF step] l by simp
    have c': "map input_columns (secondary s') = map input_columns (secondary st)"
      using outer_step_input_columns [OF step] c by simp
    from outer_step_cases [OF step] have "b \<in> set (unmatched_primary_indices s')"
    proof
      assume "s' = s"
      with bs show ?thesis by simp
    next
      assume "\<exists>k. s' = assign (fst ip) (snd ip) k s \<and> k < length (secondary s) \<and>
         k \<in> set (unmatched_secondary_indices s) \<and>
         is_match (snd ip) (secondary s ! k) = Inr True"
      then obtain k where s': "s' = assign (fst ip) (snd ip) k s"
        and kl: "k < length (secondary s)"
        and ku: "k \<in> set (unmatched_secondary_indices s)"
        and fit: "is_match (snd ip) (secondary s ! k) = Inr True" by blast
      have "fst ip \<noteq> b"
      proof
        assume "fst ip = b"
        with ip have mem: "(b, snd ip) \<in> set ps" by (cases ip) auto
        from ku sub have ku0: "k \<in> set (unmatched_secondary_indices st)" by blast
        from kl l have kl0: "k < length (secondary st)" by simp
        from nth_same_input_columns [OF c kl0]
        have "is_match (snd ip) (secondary s ! k) = is_match (snd ip) (secondary st ! k)"
          by (rule is_match_same_input_columns)
        with fit have "is_match (snd ip) (secondary st ! k) = Inr True" by simp
        with nofit [OF mem ku0 kl0] show False by simp
      qed
      with bs s' show ?thesis by (simp add: assign_simps remove_if_in_other)
    qed
    with sub' l' c' show "?Q s'" by simp
  qed
  then show ?thesis by simp
qed

text \<open>A label that is not among the rows processed stays where it is.\<close>

lemma label_not_processed_stays:
  assumes "outer_loop ps st = Inr st'" and "b \<in> set (unmatched_primary_indices st)"
    and "b \<notin> fst ` set ps"
  shows "b \<in> set (unmatched_primary_indices st')"
  using assms(1,2)
proof (rule never_matching_label_stays)
  fix p and s :: secondary_row
  assume "(b, p) \<in> set ps"
  then have "b \<in> fst ` set ps" by force
  with assms(3) show "is_match p s \<noteq> Inr True" by simp
qed

text \<open>
  The first reward that fits a payout which is the first payout fitting it receives that
  payout; a later reward that fits no other payout stays unmatched.
\<close>

lemma first_fitting_reward_gets_payout:
  assumes x: "x < length rewards" and y: "y < length payouts"
    and fit: "is_match (rewards ! x) (payouts ! y) = Inr True"
    and first_reward: "\<forall>k < x. is_match (rewards ! k) (payouts ! y) \<noteq> Inr True"
    and first_payout: "\<forall>k < y. is_match (rewards ! x) (payouts ! k) \<noteq> Inr True"
    and res: "match_data rewards payouts = Inr out"
  shows "sec_Event_ID (res_secondary out ! y) = Some (Event_ID (rewards ! x)) \<and>
     x \<notin> set (map fst (missing_events out)) \<and>
     y \<notin> set (map fst (missing_rewards out)) \<and>
     (\<forall>z < length rewards.
        x < z \<and> (\<forall>k < length payouts. k \<noteq> y \<longrightarrow>
                   is_match (rewards ! z) (payouts ! k) \<noteq> Inr True) \<longrightarrow>
        (z, rewards ! z) \<in> set (missing_events out)) \<and>
     (distinct (map Event_ID rewards) \<longrightarrow>
        (\<forall>k < length payouts. k \<noteq> y \<longrightarrow>
           sec_Event_ID (res_secondary out ! k) \<noteq> Some (Event_ID (rewards ! x))))"
proof -
  let ?st0 = "initial_state rewards payouts"
  let ?pre = "enumerate 0 (take x rewards)"
  let ?post = "enumerate (Suc x) (drop (Suc x) rewards)"
  let ?p = "rewards ! x"
  from match_data_Inr [OF res] obtain st where
    run: "outer_loop (enumerate 0 rewards) ?st0 = Inr st"
    and sec: "res_secondary out = map add_secondary_col (secondary st)"
    and ev: "missing_events out = loc rewards (unmatched_primary_indices st)"
    and rw: "missing_rewards out =
       map (\<lambda>(j, s). (j, drop_Event_ID s)) (loc (secondary st) (unmatched_secondary_indices st))"
    by blast
  from enumerate_split [OF x, of 0]
  have sp: "enumerate 0 rewards = ?pre @ (x, ?p) # ?post" by simp
  from outer_loop_split [OF run [unfolded sp]] obtain sa sb where
    pre: "outer_loop ?pre ?st0 = Inr sa" and step: "outer_step (x, ?p) sa = Inr sb"
    and post: "outer_loop ?post sb = Inr st" by blast
  have l0: "length (secondary ?st0) = length payouts" by (simp add: initial_state_simps)
  have la: "length (secondary sa) = length payouts"
    using outer_loop_length [OF pre] l0 by simp
  have lb: "length (secondary sb) = length payouts"
    using outer_step_length [OF step] la by simp
  have len: "length (secondary st) = length payouts"
    using outer_loop_length [OF post] lb by simp
  have ca: "consistent sa" using pre initial_state_consistent by (rule outer_loop_consistent)
  have cb: "consistent sb" using ca step by (rule outer_step_consistent)
  have cs: "consistent st" using post cb by (rule outer_loop_consistent)
  have da: "distinct (unmatched_primary_indices sa)"
    using pre by (rule outer_loop_primary_distinct) (simp add: initial_state_simps)
  have m0: "is_match p (secondary ?st0 ! k) = is_match p (payouts ! k)"
    if "k < length payouts" for p k
    using that by (simp add: initial_state_nth is_match_add_Event_ID)
  have ma: "is_match p (secondary sa ! k) = is_match p (payouts ! k)"
    if "k < length payouts" for p k
    using outer_loop_is_match [OF pre, of k p] m0 [OF that] that l0 by simp
  have mb: "is_match p (secondary sb ! k) = is_match p (payouts ! k)"
    if "k < length payouts" for p k
  proof -
    from step post have "outer_loop ((x, ?p) # ?post) sa = Inr st" by simp
    have "map input_columns (secondary sb) = map input_columns (secondary sa)"
      using step by (rule outer_step_input_columns)
    from nth_same_input_columns [OF this] that la
    have "input_columns (secondary sb ! k) = input_columns (secondary sa ! k)" by simp
    then have "is_match p (secondary sb ! k) = is_match p (secondary sa ! k)"
      by (rule is_match_same_input_columns)
    with ma [OF that] show ?thesis by simp
  qed
  have id: "sec_Event_ID (res_secondary out ! k) = sec_Event_ID (secondary st ! k)"
    if "k < length payouts" for k
    using that len by (simp add: sec add_secondary_col_simps)
  have free: "sec_Event_ID (secondary sa ! y) = None"
  proof (rule ccontr)
    assume taken: "sec_Event_ID (secondary sa ! y) \<noteq> None"
    have "\<exists>ip \<in> set ?pre. is_match (snd ip) (secondary ?st0 ! y) = Inr True"
      using pre _ _ taken
      by (rule assigned_by_fitting) (simp_all add: initial_state_simps y)
    then obtain ip where ip: "ip \<in> set ?pre"
      and f: "is_match (snd ip) (secondary ?st0 ! y) = Inr True" by blast
    from ip x have "fst ip < x \<and> snd ip = rewards ! fst ip"
      by (intro in_enumerate_take) simp_all
    with f m0 [OF y] first_reward show False by simp
  qed
  with ca y la have yu: "y \<in> set (unmatched_secondary_indices sa)"
    by (simp add: consistent_def)
  have sc: "scan ?p (candidates sa) = Inr (Some y)"
  proof (cases "scan ?p (candidates sa)")
    case (Inl e)
    with step show ?thesis by (simp add: outer_step_def)
  next
    case (Inr r)
    show ?thesis
    proof (cases r)
      case None
      with Inr have "scan ?p (candidates sa) = Inr None" by simp
      from yu y la have "(y, secondary sa ! y) \<in> set (candidates sa)"
        by (simp add: in_candidates)
      with scan_None_all [OF \<open>scan ?p (candidates sa) = Inr None\<close>]
      have "is_match ?p (snd (y, secondary sa ! y)) = Inr False" by (rule bspec)
      then have "is_match ?p (secondary sa ! y) = Inr False" by simp
      with fit ma [OF y] show ?thesis by simp
    next
      case (Some j0)
      with Inr have s0: "scan ?p (candidates sa) = Inr (Some j0)" by simp
      from scan_candidates_Some [OF s0] la
      have j0: "j0 < length payouts"
        and f0: "is_match ?p (secondary sa ! j0) = Inr True" by simp_all
      have "\<not> j0 < y"
      proof
        assume "j0 < y"
        with first_payout f0 ma [OF j0] show False by simp
      qed
      moreover have "\<not> y < j0"
      proof
        assume "y < j0"
        from scan_candidates_first [OF s0 this yu] fit ma [OF y] show False by simp
      qed
      ultimately have "j0 = y" by simp
      with s0 show ?thesis by simp
    qed
  qed
  with step have sb: "sb = assign x ?p y sa" by (simp add: outer_step_def)
  have "sec_Event_ID (secondary sb ! y) = Some (Event_ID ?p)"
    using y la by (simp add: sb assign_Event_ID)
  from outer_loop_keeps_assigned [OF post cb _ this] y lb
  have got: "sec_Event_ID (secondary st ! y) = Some (Event_ID ?p)" by simp
  then have c1: "sec_Event_ID (res_secondary out ! y) = Some (Event_ID ?p)"
    using y by (simp add: id)
  have "x \<notin> set (unmatched_primary_indices sb)"
    using da by (simp add: sb assign_simps remove_if_in_mem)
  with outer_loop_primary_subset [OF post]
  have "x \<notin> set (unmatched_primary_indices st)" by blast
  then have c2: "x \<notin> set (map fst (missing_events out))" by (simp add: ev map_fst_loc)
  from cs got y len have "y \<notin> set (unmatched_secondary_indices st)"
    by (auto simp: consistent_def)
  then have c3: "y \<notin> set (map fst (missing_rewards out))"
    by (simp add: rw loc_def comp_def)
  have c4: "\<forall>z < length rewards.
        x < z \<and> (\<forall>k < length payouts. k \<noteq> y \<longrightarrow>
                   is_match (rewards ! z) (payouts ! k) \<noteq> Inr True) \<longrightarrow>
        (z, rewards ! z) \<in> set (missing_events out)"
  proof (intro allI impI)
    fix z
    assume z: "z < length rewards"
      and h: "x < z \<and> (\<forall>k < length payouts. k \<noteq> y \<longrightarrow>
                   is_match (rewards ! z) (payouts ! k) \<noteq> Inr True)"
    then have xz: "x < z"
      and only: "\<forall>k < length payouts. k \<noteq> y \<longrightarrow>
                   is_match (rewards ! z) (payouts ! k) \<noteq> Inr True" by simp_all
    have z0: "z \<in> set (unmatched_primary_indices ?st0)"
      using z by (simp add: initial_state_simps)
    have zn: "z \<notin> fst ` set ?pre"
    proof
      assume "z \<in> fst ` set ?pre"
      then obtain ip where "ip \<in> set ?pre" and "z = fst ip" by auto
      with x in_enumerate_take [of ip x rewards] have "z < x" by simp
      with xz show False by simp
    qed
    from pre z0 zn have "z \<in> set (unmatched_primary_indices sa)"
      by (rule label_not_processed_stays)
    with xz have zb: "z \<in> set (unmatched_primary_indices sb)"
      by (simp add: sb assign_simps remove_if_in_other)
    from ca have "distinct (unmatched_secondary_indices sa)" by (simp add: consistent_def)
    then have ynot: "y \<notin> set (unmatched_secondary_indices sb)"
      by (simp add: sb assign_simps remove_if_in_mem)
    from post zb have "z \<in> set (unmatched_primary_indices st)"
    proof (rule row_without_available_fit_stays)
      fix p k
      assume mem: "(z, p) \<in> set ?post"
        and ku: "k \<in> set (unmatched_secondary_indices sb)"
        and kl: "k < length (secondary sb)"
      from mem have p: "p = rewards ! z" by (auto simp: in_set_enumerate_eq)
      from ku ynot have "k \<noteq> y" by auto
      with only kl lb have "is_match (rewards ! z) (payouts ! k) \<noteq> Inr True" by simp
      with p mb [of k p] kl lb show "is_match p (secondary sb ! k) \<noteq> Inr True" by simp
    qed
    then show "(z, rewards ! z) \<in> set (missing_events out)" by (auto simp: ev loc_def)
  qed
  have c5: "distinct (map Event_ID rewards) \<longrightarrow>
        (\<forall>k < length payouts. k \<noteq> y \<longrightarrow>
           sec_Event_ID (res_secondary out ! k) \<noteq> Some (Event_ID ?p))"
  proof (intro impI allI)
    fix k
    assume d: "distinct (map Event_ID rewards)" and k: "k < length payouts" and ne: "k \<noteq> y"
    have "distinct (map (\<lambda>ip. Event_ID (snd ip)) (enumerate 0 rewards))"
      using d by (simp only: map_Event_ID_enumerate)
    with run have u: "unique_ids (secondary st)"
      by (rule outer_loop_unique_ids)
        (simp_all add: initial_state_unique_ids initial_state_unused_id)
    show "sec_Event_ID (res_secondary out ! k) \<noteq> Some (Event_ID ?p)"
    proof
      assume "sec_Event_ID (res_secondary out ! k) = Some (Event_ID ?p)"
      with k have "sec_Event_ID (secondary st ! k) = Some (Event_ID ?p)" by (simp add: id)
      with got have "sec_Event_ID (secondary st ! y) \<noteq> None \<and>
          sec_Event_ID (secondary st ! y) = sec_Event_ID (secondary st ! k)" by simp
      moreover from y k len have "y < length (secondary st)" "k < length (secondary st)"
        by simp_all
      ultimately have "y = k"
        using u [unfolded unique_ids_def, rule_format, of y k] by blast
      with ne show False by simp
    qed
  qed
  show ?thesis by (intro conjI c1 c2 c3 c4 c5)
qed

text \<open>
  A reward that fits a payout and no payout before it leaves the payout taken after
  its round; a later reward that fits no other payout stays unmatched.
\<close>

lemma later_reward_of_taken_payout_unmatched:
  assumes xz: "x < z" and z: "z < length rewards" and y: "y < length payouts"
    and fit: "is_match (rewards ! x) (payouts ! y) = Inr True"
    and first_payout: "\<forall>k < y. is_match (rewards ! x) (payouts ! k) \<noteq> Inr True"
    and only: "\<forall>k < length payouts. k \<noteq> y \<longrightarrow>
                 is_match (rewards ! z) (payouts ! k) \<noteq> Inr True"
    and res: "match_data rewards payouts = Inr out"
  shows "(z, rewards ! z) \<in> set (missing_events out) \<and>
     y \<notin> set (map fst (missing_rewards out)) \<and>
     (\<exists>w \<le> x. sec_Event_ID (res_secondary out ! y) = Some (Event_ID (rewards ! w)))"
proof -
  from xz z have xl: "x < length rewards" by simp
  let ?st0 = "initial_state rewards payouts"
  let ?pre = "enumerate 0 (take x rewards)"
  let ?post = "enumerate (Suc x) (drop (Suc x) rewards)"
  let ?p = "rewards ! x"
  from match_data_Inr [OF res] obtain st where
    run: "outer_loop (enumerate 0 rewards) ?st0 = Inr st"
    and sec: "res_secondary out = map add_secondary_col (secondary st)"
    and ev: "missing_events out = loc rewards (unmatched_primary_indices st)"
    and rw: "missing_rewards out =
       map (\<lambda>(j, s). (j, drop_Event_ID s)) (loc (secondary st) (unmatched_secondary_indices st))"
    by blast
  from enumerate_split [OF xl, of 0]
  have sp: "enumerate 0 rewards = ?pre @ (x, ?p) # ?post" by simp
  from outer_loop_split [OF run [unfolded sp]] obtain sa sb where
    pre: "outer_loop ?pre ?st0 = Inr sa" and step: "outer_step (x, ?p) sa = Inr sb"
    and post: "outer_loop ?post sb = Inr st" by blast
  from step post have run2: "outer_loop ((x, ?p) # ?post) sa = Inr st" by simp
  have l0: "length (secondary ?st0) = length payouts" by (simp add: initial_state_simps)
  have la: "length (secondary sa) = length payouts"
    using outer_loop_length [OF pre] l0 by simp
  have lb: "length (secondary sb) = length payouts"
    using outer_step_length [OF step] la by simp
  have len: "length (secondary st) = length payouts"
    using outer_loop_length [OF post] lb by simp
  have ca: "consistent sa" using pre initial_state_consistent by (rule outer_loop_consistent)
  have cb: "consistent sb" using ca step by (rule outer_step_consistent)
  have cs: "consistent st" using post cb by (rule outer_loop_consistent)
  have da: "distinct (unmatched_primary_indices sa)"
    using pre by (rule outer_loop_primary_distinct) (simp add: initial_state_simps)
  have m0: "is_match p (secondary ?st0 ! k) = is_match p (payouts ! k)"
    if "k < length payouts" for p k
    using that by (simp add: initial_state_nth is_match_add_Event_ID)
  have ma: "is_match p (secondary sa ! k) = is_match p (payouts ! k)"
    if "k < length payouts" for p k
    using outer_loop_is_match [OF pre, of k p] m0 [OF that] that l0 by simp
  have mb: "is_match p (secondary sb ! k) = is_match p (payouts ! k)"
    if "k < length payouts" for p k
  proof -
    have "map input_columns (secondary sb) = map input_columns (secondary sa)"
      using step by (rule outer_step_input_columns)
    from nth_same_input_columns [OF this] that la
    have "input_columns (secondary sb ! k) = input_columns (secondary sa ! k)" by simp
    then have "is_match p (secondary sb ! k) = is_match p (secondary sa ! k)"
      by (rule is_match_same_input_columns)
    with ma [OF that] show ?thesis by simp
  qed
  have id: "sec_Event_ID (res_secondary out ! k) = sec_Event_ID (secondary st ! k)"
    if "k < length payouts" for k
    using that len by (simp add: sec add_secondary_col_simps)
  have ynot: "y \<notin> set (unmatched_secondary_indices sb)"
  proof (cases "y \<in> set (unmatched_secondary_indices sa)")
    case False
    with outer_step_secondary_subset [OF step] show ?thesis by blast
  next
    case yu: True
    have sc: "scan ?p (candidates sa) = Inr (Some y)"
    proof (cases "scan ?p (candidates sa)")
      case (Inl e)
      with step show ?thesis by (simp add: outer_step_def)
    next
      case (Inr r)
      show ?thesis
      proof (cases r)
        case None
        with Inr have sn: "scan ?p (candidates sa) = Inr None" by simp
        from yu y la have "(y, secondary sa ! y) \<in> set (candidates sa)"
          by (simp add: in_candidates)
        with scan_None_all [OF sn]
        have "is_match ?p (snd (y, secondary sa ! y)) = Inr False" by (rule bspec)
        then have "is_match ?p (secondary sa ! y) = Inr False" by simp
        with fit ma [OF y] show ?thesis by simp
      next
        case (Some j0)
        with Inr have s0: "scan ?p (candidates sa) = Inr (Some j0)" by simp
        from scan_candidates_Some [OF s0] la
        have j0: "j0 < length payouts"
          and ju: "j0 \<in> set (unmatched_secondary_indices sa)"
          and f0: "is_match ?p (secondary sa ! j0) = Inr True" by simp_all
        have "\<not> j0 < y"
        proof
          assume "j0 < y"
          with first_payout f0 ma [OF j0] show False by simp
        qed
        moreover have "\<not> y < j0"
        proof
          assume "y < j0"
          from scan_candidates_first [OF s0 this yu] fit ma [OF y] show False by simp
        qed
        ultimately have "j0 = y" by simp
        with s0 show ?thesis by simp
      qed
    qed
    with step have sb: "sb = assign x ?p y sa" by (simp add: outer_step_def)
    from ca have "distinct (unmatched_secondary_indices sa)" by (simp add: consistent_def)
    then show ?thesis by (simp add: sb assign_simps remove_if_in_mem)
  qed
  have z0: "z \<in> set (unmatched_primary_indices ?st0)"
    using z by (simp add: initial_state_simps)
  have zn: "z \<notin> fst ` set ?pre"
  proof
    assume "z \<in> fst ` set ?pre"
    then obtain ip where "ip \<in> set ?pre" and "z = fst ip" by auto
    with xl in_enumerate_take [of ip x rewards] have "z < x" by simp
    with xz show False by simp
  qed
  from pre z0 zn have za: "z \<in> set (unmatched_primary_indices sa)"
    by (rule label_not_processed_stays)
  have zb: "z \<in> set (unmatched_primary_indices sb)"
  proof -
    from step have one: "outer_loop [(x, ?p)] sa = Inr sb" by simp
    from xz have nx: "z \<notin> fst ` set [(x, ?p)]" by simp
    from one za nx show ?thesis by (rule label_not_processed_stays)
  qed
  from post zb have "z \<in> set (unmatched_primary_indices st)"
  proof (rule row_without_available_fit_stays)
    fix p k
    assume mem: "(z, p) \<in> set ?post"
      and ku: "k \<in> set (unmatched_secondary_indices sb)"
      and kl: "k < length (secondary sb)"
    from mem have p: "p = rewards ! z" by (auto simp: in_set_enumerate_eq)
    from ku ynot have "k \<noteq> y" by auto
    with only kl lb have "is_match (rewards ! z) (payouts ! k) \<noteq> Inr True" by simp
    with p mb [of k p] kl lb show "is_match p (secondary sb ! k) \<noteq> Inr True" by simp
  qed
  then have c1: "(z, rewards ! z) \<in> set (missing_events out)" by (auto simp: ev loc_def)
  from ynot outer_loop_secondary_subset [OF post]
  have "y \<notin> set (unmatched_secondary_indices st)" by blast
  then have c2: "y \<notin> set (map fst (missing_rewards out))"
    by (simp add: rw loc_def comp_def)
  from cb ynot y lb have "sec_Event_ID (secondary sb ! y) \<noteq> None"
    by (simp add: consistent_def)
  then obtain e where eb: "sec_Event_ID (secondary sb ! y) = Some e" by blast
  from outer_loop_keeps_assigned [OF post cb _ eb] y lb
  have est: "sec_Event_ID (secondary st ! y) = Some e" by simp
  have "outer_loop (?pre @ [(x, ?p)]) ?st0 = Inr sb"
    using pre step by (simp add: outer_loop_append)
  from assigned_id_origin [OF this _ eb] y l0
  have "sec_Event_ID (secondary ?st0 ! y) = Some e \<or>
     e \<in> (\<lambda>ip. Event_ID (snd ip)) ` set (?pre @ [(x, ?p)])" by simp
  moreover from y have "sec_Event_ID (secondary ?st0 ! y) = None"
    by (simp add: initial_state_simps)
  ultimately have "e \<in> (\<lambda>ip. Event_ID (snd ip)) ` set (?pre @ [(x, ?p)])" by simp
  then obtain ip where ip: "ip \<in> set (?pre @ [(x, ?p)])" and e: "e = Event_ID (snd ip)"
    by blast
  have "fst ip \<le> x \<and> snd ip = rewards ! fst ip"
  proof (cases "ip \<in> set ?pre")
    case True
    with xl in_enumerate_take [of ip x rewards] show ?thesis by simp
  next
    case False
    with ip have "ip = (x, ?p)" by simp
    then show ?thesis by simp
  qed
  with e est y have "fst ip \<le> x \<and>
     sec_Event_ID (res_secondary out ! y) = Some (Event_ID (rewards ! fst ip))"
    by (simp add: id)
  then have c3: "\<exists>w \<le> x. sec_Event_ID (res_secondary out ! y) = Some (Event_ID (rewards ! w))"
    by blast
  show ?thesis by (intro conjI c1 c2 c3)
qed

text \<open>
  A reward takes a payout that fits it when no earlier reward has taken that payout
  and every fitting payout before it has gone to an earlier reward.
\<close>

lemma reward_takes_first_free_fitting_payout:
  assumes d: "distinct (map Event_ID rewards)"
    and res: "match_data rewards payouts = Inr out"
    and xl: "x < length rewards" and y: "y < length payouts"
    and fit: "is_match (rewards ! x) (payouts ! y) = Inr True"
    and taken: "\<forall>k < y. is_match (rewards ! x) (payouts ! k) = Inr True \<longrightarrow>
        (\<exists>w < x. sec_Event_ID (res_secondary out ! k) = Some (Event_ID (rewards ! w)))"
    and free: "\<forall>w < x. sec_Event_ID (res_secondary out ! y) \<noteq> Some (Event_ID (rewards ! w))"
  shows "sec_Event_ID (res_secondary out ! y) = Some (Event_ID (rewards ! x))"
proof -
  let ?st0 = "initial_state rewards payouts"
  let ?pre = "enumerate 0 (take x rewards)"
  let ?post = "enumerate (Suc x) (drop (Suc x) rewards)"
  let ?p = "rewards ! x"
  from match_data_Inr [OF res] obtain st where
    run: "outer_loop (enumerate 0 rewards) ?st0 = Inr st"
    and sec: "res_secondary out = map add_secondary_col (secondary st)"
    and ev: "missing_events out = loc rewards (unmatched_primary_indices st)"
    and rw: "missing_rewards out =
       map (\<lambda>(j, s). (j, drop_Event_ID s)) (loc (secondary st) (unmatched_secondary_indices st))"
    by blast
  from enumerate_split [OF xl, of 0]
  have sp: "enumerate 0 rewards = ?pre @ (x, ?p) # ?post" by simp
  from outer_loop_split [OF run [unfolded sp]] obtain sa sb where
    pre: "outer_loop ?pre ?st0 = Inr sa" and step: "outer_step (x, ?p) sa = Inr sb"
    and post: "outer_loop ?post sb = Inr st" by blast
  from step post have run2: "outer_loop ((x, ?p) # ?post) sa = Inr st" by simp
  have l0: "length (secondary ?st0) = length payouts" by (simp add: initial_state_simps)
  have la: "length (secondary sa) = length payouts"
    using outer_loop_length [OF pre] l0 by simp
  have lb: "length (secondary sb) = length payouts"
    using outer_step_length [OF step] la by simp
  have len: "length (secondary st) = length payouts"
    using outer_loop_length [OF post] lb by simp
  have ca: "consistent sa" using pre initial_state_consistent by (rule outer_loop_consistent)
  have cb: "consistent sb" using ca step by (rule outer_step_consistent)
  have cs: "consistent st" using post cb by (rule outer_loop_consistent)
  have da: "distinct (unmatched_primary_indices sa)"
    using pre by (rule outer_loop_primary_distinct) (simp add: initial_state_simps)
  have m0: "is_match p (secondary ?st0 ! k) = is_match p (payouts ! k)"
    if "k < length payouts" for p k
    using that by (simp add: initial_state_nth is_match_add_Event_ID)
  have ma: "is_match p (secondary sa ! k) = is_match p (payouts ! k)"
    if "k < length payouts" for p k
    using outer_loop_is_match [OF pre, of k p] m0 [OF that] that l0 by simp
  have mb: "is_match p (secondary sb ! k) = is_match p (payouts ! k)"
    if "k < length payouts" for p k
  proof -
    have "map input_columns (secondary sb) = map input_columns (secondary sa)"
      using step by (rule outer_step_input_columns)
    from nth_same_input_columns [OF this] that la
    have "input_columns (secondary sb ! k) = input_columns (secondary sa ! k)" by simp
    then have "is_match p (secondary sb ! k) = is_match p (secondary sa ! k)"
      by (rule is_match_same_input_columns)
    with ma [OF that] show ?thesis by simp
  qed
  have id: "sec_Event_ID (res_secondary out ! k) = sec_Event_ID (secondary st ! k)"
    if "k < length payouts" for k
    using that len by (simp add: sec add_secondary_col_simps)
  have later: "x \<le> fst ip \<and> fst ip < length rewards \<and> snd ip = rewards ! fst ip"
    if "ip \<in> set ((x, ?p) # ?post)" for ip
  proof (cases "ip = (x, ?p)")
    case True
    with xl show ?thesis by simp
  next
    case False
    with that have "ip \<in> set ?post" by simp
    then have "(fst ip, snd ip) \<in> set ?post" by simp
    then show ?thesis by (auto simp: in_set_enumerate_eq)
  qed
  have ya: "sec_Event_ID (secondary sa ! y) = None"
  proof (rule ccontr)
    assume "sec_Event_ID (secondary sa ! y) \<noteq> None"
    then obtain e where ea: "sec_Event_ID (secondary sa ! y) = Some e" by blast
    from assigned_id_origin [OF pre _ ea] y l0
    have "sec_Event_ID (secondary ?st0 ! y) = Some e \<or>
       e \<in> (\<lambda>ip. Event_ID (snd ip)) ` set ?pre" by simp
    moreover from y have "sec_Event_ID (secondary ?st0 ! y) = None"
      by (simp add: initial_state_simps)
    ultimately have "e \<in> (\<lambda>ip. Event_ID (snd ip)) ` set ?pre" by simp
    then obtain ip where ip: "ip \<in> set ?pre" and e: "e = Event_ID (snd ip)" by blast
    from ip xl in_enumerate_take [of ip x rewards]
    have w: "fst ip < x" and s: "snd ip = rewards ! fst ip" by simp_all
    from outer_loop_keeps_assigned [OF run2 ca _ ea] y la
    have "sec_Event_ID (secondary st ! y) = Some e" by simp
    with e s y have "sec_Event_ID (res_secondary out ! y) = Some (Event_ID (rewards ! fst ip))"
      by (simp add: id)
    with free [rule_format, OF w] show False by simp
  qed
  with ca y la have yu: "y \<in> set (unmatched_secondary_indices sa)"
    by (simp add: consistent_def)
  have gone: "k \<notin> set (unmatched_secondary_indices sa)"
    if k: "k < y" and fk: "is_match ?p (payouts ! k) = Inr True" for k
  proof
    assume "k \<in> set (unmatched_secondary_indices sa)"
    with ca k y la have none: "sec_Event_ID (secondary sa ! k) = None"
      by (simp add: consistent_def)
    from taken k fk obtain w where w: "w < x"
      and "sec_Event_ID (res_secondary out ! k) = Some (Event_ID (rewards ! w))" by blast
    with k y have ek: "sec_Event_ID (secondary st ! k) = Some (Event_ID (rewards ! w))"
      by (simp add: id)
    from assigned_id_origin [OF run2 _ ek] k y la
    have "sec_Event_ID (secondary sa ! k) = Some (Event_ID (rewards ! w)) \<or>
       Event_ID (rewards ! w) \<in> (\<lambda>ip. Event_ID (snd ip)) ` set ((x, ?p) # ?post)" by simp
    with none have "Event_ID (rewards ! w) \<in> (\<lambda>ip. Event_ID (snd ip)) ` set ((x, ?p) # ?post)"
      by simp
    then obtain ip where ip: "ip \<in> set ((x, ?p) # ?post)"
      and e: "Event_ID (rewards ! w) = Event_ID (snd ip)" by blast
    from later [OF ip] have l1: "x \<le> fst ip" and l2: "fst ip < length rewards"
      and l3: "snd ip = rewards ! fst ip" by simp_all
    from w xl have wl: "w < length rewards" by simp
    from e l3 wl l2 have eq: "map Event_ID rewards ! w = map Event_ID rewards ! fst ip" by simp
    from wl l2 have lw: "w < length (map Event_ID rewards)"
      and li: "fst ip < length (map Event_ID rewards)" by simp_all
    from d lw li eq have "w = fst ip" by (rule nth_eq_iff_index_eq [THEN iffD1])
    with w l1 show False by simp
  qed
  have sc: "scan ?p (candidates sa) = Inr (Some y)"
  proof (cases "scan ?p (candidates sa)")
    case (Inl e)
    with step show ?thesis by (simp add: outer_step_def)
  next
    case (Inr r)
    show ?thesis
    proof (cases r)
      case None
      with Inr have sn: "scan ?p (candidates sa) = Inr None" by simp
      from yu y la have "(y, secondary sa ! y) \<in> set (candidates sa)"
        by (simp add: in_candidates)
      with scan_None_all [OF sn]
      have "is_match ?p (snd (y, secondary sa ! y)) = Inr False" by (rule bspec)
      then have "is_match ?p (secondary sa ! y) = Inr False" by simp
      with fit ma [OF y] show ?thesis by simp
    next
      case (Some j0)
      with Inr have s0: "scan ?p (candidates sa) = Inr (Some j0)" by simp
      from scan_candidates_Some [OF s0] la
      have j0: "j0 < length payouts"
        and ju: "j0 \<in> set (unmatched_secondary_indices sa)"
        and f0: "is_match ?p (secondary sa ! j0) = Inr True" by simp_all
      have "\<not> j0 < y"
      proof
        assume "j0 < y"
        with gone [of j0] ju f0 ma [OF j0] show False by simp
      qed
      moreover have "\<not> y < j0"
      proof
        assume "y < j0"
        from scan_candidates_first [OF s0 this yu] fit ma [OF y] show False by simp
      qed
      ultimately have "j0 = y" by simp
      with s0 show ?thesis by simp
    qed
  qed
  with step have sb: "sb = assign x ?p y sa" by (simp add: outer_step_def)
  have "sec_Event_ID (secondary sb ! y) = Some (Event_ID ?p)"
    using y la by (simp add: sb assign_Event_ID)
  from outer_loop_keeps_assigned [OF post cb _ this] y lb
  have "sec_Event_ID (secondary st ! y) = Some (Event_ID ?p)" by simp
  then show ?thesis using y by (simp add: id)
qed

section \<open>More example frames, evaluated\<close>

lemma queue_facts:
  "(1::nat) < length queue_rewards" "(1::nat) < length queue_payouts"
  "is_match (queue_rewards ! 1) (queue_payouts ! 1) = Inr True"
  "is_match (queue_rewards ! 0) (queue_payouts ! 1) = Inr False"
  "is_match (queue_rewards ! 1) (queue_payouts ! 0) = Inr False"
  "is_match (queue_rewards ! 2) (queue_payouts ! 1) = Inr True"
  "is_match (queue_rewards ! 2) (queue_payouts ! 0) = Inr False"
  "list_all suffix_is_text queue_rewards"
  "length queue_rewards = 3" "length queue_payouts = 2"
  "Event_ID (queue_rewards ! 1) = ''E7''"
  by code_simp+

lemma relay_run: "match_data relay_rewards relay_payouts = Inr relay_result"
  by code_simp

lemma relay_distinct: "distinct (map Event_ID relay_rewards)"
  by code_simp

lemma relay_facts:
  "(1::nat) < length relay_rewards" "(3::nat) < length relay_rewards"
  "(1::nat) < length relay_payouts" "length relay_payouts = 2"
  "is_match (relay_rewards ! 2) (relay_payouts ! 0) = Inr False"
  "is_match (relay_rewards ! 2) (relay_payouts ! 1) = Inr True"
  "is_match (relay_rewards ! 3) (relay_payouts ! 0) = Inr False"
  "is_match (relay_rewards ! 3) (relay_payouts ! 1) = Inr True"
  "(2, relay_rewards ! 2) \<in> set (missing_events relay_result)"
  "is_match (relay_rewards ! 1) (relay_payouts ! 0) = Inr True"
  "is_match (relay_rewards ! 1) (relay_payouts ! 1) = Inr True"
  "sec_Event_ID (res_secondary relay_result ! 0) = Some (Event_ID (relay_rewards ! 0))"
  "sec_Event_ID (res_secondary relay_result ! 1) \<noteq> Some (Event_ID (relay_rewards ! 0))"
  "Event_ID (relay_rewards ! 1) = ''E8''"
  by code_simp+

text \<open>A row without an amount is among the missing events of every run that returns.\<close>

lemma missing_amount_row_unmatched:
  assumes "i < length primary" and "amount (primary ! i) = None"
    and "match_data primary secondary_frame = Inr r"
  shows "(i, primary ! i) \<in> set (missing_events r)"
  using assms(3) assms(1) no_amount_no_match [OF assms(2)] by (rule never_matching_row_unmatched)

text \<open>A label without the amount pattern leaves the amount \<open>NaN\<close>.\<close>

lemma label_without_pattern_has_no_amount:
  assumes n: "\<not> (\<exists>a d b. Reward_Name raw = a @ [CHR 0xC2, CHR 0xA3, d] @ b \<and> is_digit d)"
  shows "amount (prepare_primary_row raw) = None"
proof -
  have "extract_digits (Reward_Name raw) = None"
  proof (cases "extract_digits (Reward_Name raw)")
    case None
    then show ?thesis .
  next
    case (Some ds)
    from extract_digits_Some [OF this] n show ?thesis by blast
  qed
  then show ?thesis
    by (simp add: prepare_primary_row_def extract_amount_def)
qed

section \<open>The claims\<close>

text \<open>
  C1 (example scenario). The specification expects the payout of the example scenario to
  receive \<open>E1\<close> and both lists of unmatched rows to be empty. A primary row that is
  not a VIP reward has \<open>CASHVIP = 'NO'\<close> after \<open>prepare_data\<close>; on the scenario's
  rows \<open>match_data\<close> assigns nothing: the payout keeps no event, and both rows are
  reported unmatched. Had the row the empty string for \<open>CASHVIP\<close>, the payout would
  receive \<open>E1\<close> and nothing would be left unmatched.
\<close>

theorem example_scenario_unmatched:
  "prepare_primary_row jane_raw = jane \<and>
   match_data [jane] [jane_payout] = Inr jane_unmatched \<and>
   map sec_Event_ID (res_secondary jane_unmatched) = [None] \<and>
   map fst (missing_events jane_unmatched) = [0] \<and>
   map fst (missing_rewards jane_unmatched) = [0] \<and>
   map_sum id (\<lambda>r. (map sec_Event_ID (res_secondary r), missing_events r, missing_rewards r))
     (match_data [jane\<lparr>CASHVIP := ''''\<rparr>] [jane_payout]) = Inr ([Some ''E1''], [], [])"
  by (simp add: prepare_jane jane_run jane_empty_cashvip_run) (simp add: jane_unmatched_def)

text \<open>
  C2 (VIP predicate). The specification lets a primary row that is not VIP match a
  secondary row whose VIP cell is absent. With the value \<open>'NO'\<close> that \<open>prepare_data\<close>
  gives such a row, the last conjunct of the condition is false although the phone,
  name, dates and amount agree, and the pair is not matched.
\<close>

theorem vip_no_with_absent_rejected:
  "CASHVIP jane = ''NO'' \<and> CASHVIP_q jane_payout = None \<and>
   join_pred jane jane_payout = Inr True \<and> window_pred jane jane_payout \<and>
   amount_pred jane jane_payout \<and> vip_pred jane jane_payout = False \<and>
   is_match jane jane_payout = Inr False"
  by code_simp

text \<open>
  C3 (join predicate). The phone suffix that \<open>prepare_data\<close> computes is stored in the
  column \<open>'Telephone Number'\<close>; the condition of \<open>match_data\<close> reads the column
  \<open>'last_10_digits'\<close>. For a frame loaded without such a column, the payout's phone
  ends with the prepared suffix and the names agree in lower case, yet the condition
  raises \<open>KeyError\<close>, and so does the whole run. When the loaded frame has a column
  \<open>'last_10_digits'\<close>, the condition follows that column and not the prepared suffix.
\<close>

theorem join_reads_missing_column:
  "endswith (Recipient_Phone_Number (vip_payout 1))
     (Telephone_Number (prepare_primary_row vip_raw)) \<and>
   lower (Recipient (vip_payout 1)) = lower (name (prepare_primary_row vip_raw)) \<and>
   join_pred (prepare_primary_row vip_raw) (vip_payout 1) = Inl (KeyError ''last_10_digits'') \<and>
   prepare_and_match [vip_raw] [vip_payout 1] = Inl (KeyError ''last_10_digits'') \<and>
   join_pred (prepare_primary_row (vip_raw\<lparr>last_10_digits := Some (Text ''0000000000'')\<rparr>))
     (vip_payout 1) = Inr False"
  by code_simp

text \<open>
  C4 (window predicate). A payout passes the window test exactly when its release date
  is strictly after the reported date and at most seven days after it. A matched pair
  passes the test, and when the other tests hold the pair is matched exactly when the
  window test holds. A release on the reported day is never matched, a release seven
  days later passes, a release eight days later is never matched.
\<close>

theorem window_strictly_after_within_seven_days:
  "(window_pred p s \<longleftrightarrow>
      Reported_At p < Order_Release_Date s \<and> Order_Release_Date s \<le> Reported_At p + 7) \<and>
   (is_match p s = Inr True \<longrightarrow> window_pred p s) \<and>
   (join_pred p s = Inr True \<and> amount_pred p s \<and> vip_pred p s \<longrightarrow>
      (is_match p s = Inr True \<longleftrightarrow> window_pred p s)) \<and>
   (Order_Release_Date s = Reported_At p \<longrightarrow> \<not> window_pred p s \<and> is_match p s \<noteq> Inr True) \<and>
   (Order_Release_Date s = Reported_At p + 7 \<longrightarrow> window_pred p s) \<and>
   (Order_Release_Date s = Reported_At p + 8 \<longrightarrow> \<not> window_pred p s \<and> is_match p s \<noteq> Inr True)"
  by (auto simp: window_pred_def is_match_def split: sum.splits)

theorem window_witness:
  "Order_Release_Date (vip_payout 0) = Reported_At vip \<and>
   is_match vip (vip_payout 0) \<noteq> Inr True \<and>
   Order_Release_Date (vip_payout 7) = Reported_At vip + 7 \<and>
   join_pred vip (vip_payout 7) = Inr True \<and> amount_pred vip (vip_payout 7) \<and>
   vip_pred vip (vip_payout 7) \<and>
   is_match vip (vip_payout 7) = Inr True \<and>
   Order_Release_Date (vip_payout 8) = Reported_At vip + 8 \<and>
   is_match vip (vip_payout 8) \<noteq> Inr True"
proof -
  have d0: "Order_Release_Date (vip_payout 0) = Reported_At vip" by code_simp
  have d7: "Order_Release_Date (vip_payout 7) = Reported_At vip + 7" by code_simp
  have d8: "Order_Release_Date (vip_payout 8) = Reported_At vip + 8" by code_simp
  have o7: "join_pred vip (vip_payout 7) = Inr True \<and> amount_pred vip (vip_payout 7) \<and>
    vip_pred vip (vip_payout 7)" by code_simp
  from d0 window_strictly_after_within_seven_days [of vip "vip_payout 0"]
  have a: "is_match vip (vip_payout 0) \<noteq> Inr True" by blast
  from d7 o7 window_strictly_after_within_seven_days [of vip "vip_payout 7"]
  have b: "is_match vip (vip_payout 7) = Inr True" by blast
  from d8 window_strictly_after_within_seven_days [of vip "vip_payout 8"]
  have c: "is_match vip (vip_payout 8) \<noteq> Inr True" by blast
  from d0 d7 d8 o7 a b c show ?thesis by blast
qed

text \<open>
  C5 (uniqueness). When the event identifiers of the primary frame are pairwise
  distinct, then in the secondary frame that \<open>match_data\<close> returns no two different
  rows carry the same identifier, and every identifier stands in at most one row.
\<close>

theorem assigned_event_ids_unique:
  assumes "distinct (map Event_ID primary)" and "match_data primary secondary0 = Inr r"
  shows "(\<forall>j1 < length (res_secondary r). \<forall>j2 < length (res_secondary r).
            sec_Event_ID (res_secondary r ! j1) \<noteq> None \<and>
            sec_Event_ID (res_secondary r ! j1) = sec_Event_ID (res_secondary r ! j2)
              \<longrightarrow> j1 = j2) \<and>
         (\<forall>e. card {j. j < length (res_secondary r) \<and>
                      sec_Event_ID (res_secondary r ! j) = Some e} \<le> 1)"
proof -
  from match_data_Inr [OF assms(2)] obtain st where
    run: "outer_loop (enumerate 0 primary) (initial_state primary secondary0) = Inr st"
    and sec: "res_secondary r = map add_secondary_col (secondary st)" by blast
  have "distinct (map (\<lambda>ip. Event_ID (snd ip)) (enumerate 0 primary))"
    using assms(1) by (simp add: map_Event_ID_enumerate)
  with run have "unique_ids (secondary st)"
    by (rule outer_loop_unique_ids) (simp_all add: initial_state_unique_ids initial_state_unused_id)
  with sec have u: "\<forall>j1 < length (res_secondary r). \<forall>j2 < length (res_secondary r).
            sec_Event_ID (res_secondary r ! j1) \<noteq> None \<and>
            sec_Event_ID (res_secondary r ! j1) = sec_Event_ID (res_secondary r ! j2)
              \<longrightarrow> j1 = j2"
    by (simp add: unique_ids_def add_secondary_col_simps)
  have "card {j. j < length (res_secondary r) \<and>
                 sec_Event_ID (res_secondary r ! j) = Some e} \<le> 1" for e
  proof -
    let ?A = "{j. j < length (res_secondary r) \<and> sec_Event_ID (res_secondary r ! j) = Some e}"
    have "finite ?A" by simp
    moreover from u have "\<forall>a \<in> ?A. \<forall>b \<in> ?A. a = b" by auto
    ultimately have "card ?A \<le> Suc 0" by (simp add: card_le_Suc0_iff_eq)
    then show ?thesis by simp
  qed
  with u show ?thesis by blast
qed

theorem assigned_event_ids_unique_witness:
  "distinct (map Event_ID demo_primary) \<and>
   match_data demo_primary demo_secondary = Inr demo_result \<and>
   sec_Event_ID (res_secondary demo_result ! 1) = Some ''E7'' \<and>
   sec_Event_ID (res_secondary demo_result ! 3) = Some ''E8'' \<and>
   sec_Event_ID (res_secondary demo_result ! 1) \<noteq> sec_Event_ID (res_secondary demo_result ! 3) \<and>
   card {j. j < length (res_secondary demo_result) \<and>
            sec_Event_ID (res_secondary demo_result ! j) = Some ''E7''} \<le> 1"
proof -
  note t = assigned_event_ids_unique [OF demo_distinct demo_run]
  have l: "(1::nat) < length (res_secondary demo_result)" "(3::nat) < length (res_secondary demo_result)"
    by code_simp+
  have a: "sec_Event_ID (res_secondary demo_result ! 1) = Some ''E7''"
    and b: "sec_Event_ID (res_secondary demo_result ! 3) = Some ''E8''" by code_simp+
  from t l have "sec_Event_ID (res_secondary demo_result ! 1) \<noteq> None \<and>
      sec_Event_ID (res_secondary demo_result ! 1) = sec_Event_ID (res_secondary demo_result ! 3)
      \<longrightarrow> (1::nat) = 3" by blast
  with a have c: "sec_Event_ID (res_secondary demo_result ! 1) \<noteq>
      sec_Event_ID (res_secondary demo_result ! 3)" by auto
  from t have d: "card {j. j < length (res_secondary demo_result) \<and>
            sec_Event_ID (res_secondary demo_result ! j) = Some ''E7''} \<le> 1" by blast
  from demo_distinct demo_run a b c d show ?thesis by blast
qed

text \<open>
  C6 (partition). In every run that returns, the unmatched secondary labels have no
  repetition and a secondary row is among the missing rewards exactly when its
  \<open>'Event ID'\<close> is still \<open>None\<close>. The unmatched primary labels have no repetition,
  and every primary row is among the missing events or has its identifier in some
  secondary row; when the identifiers of the primary frame are pairwise distinct (the
  invariant of the data model), exactly one of the two holds.
\<close>

theorem outputs_partition_the_frames:
  assumes "match_data primary secondary0 = Inr r"
  shows "length (res_secondary r) = length secondary0 \<and>
    distinct (map fst (missing_rewards r)) \<and>
    (\<forall>j < length secondary0.
       (sec_Event_ID (res_secondary r ! j) \<noteq> None) \<noteq> (j \<in> set (map fst (missing_rewards r)))) \<and>
    distinct (map fst (missing_events r)) \<and>
    (\<forall>i < length primary.
       i \<in> set (map fst (missing_events r)) \<or>
       (\<exists>j < length secondary0.
          sec_Event_ID (res_secondary r ! j) = Some (Event_ID (primary ! i)))) \<and>
    (distinct (map Event_ID primary) \<longrightarrow>
       (\<forall>i < length primary.
          (i \<in> set (map fst (missing_events r))) \<noteq>
          (\<exists>j < length secondary0.
             sec_Event_ID (res_secondary r ! j) = Some (Event_ID (primary ! i)))))"
proof -
  let ?st0 = "initial_state primary secondary0"
  from match_data_Inr [OF assms] obtain st where
    run: "outer_loop (enumerate 0 primary) ?st0 = Inr st"
    and sec: "res_secondary r = map add_secondary_col (secondary st)"
    and ev: "missing_events r = loc primary (unmatched_primary_indices st)"
    and rw: "missing_rewards r =
       map (\<lambda>(j, s). (j, drop_Event_ID s)) (loc (secondary st) (unmatched_secondary_indices st))"
    by blast
  have len: "length (secondary st) = length secondary0"
    using outer_loop_length [OF run] by (simp add: initial_state_simps)
  have cons: "consistent st"
    using run initial_state_consistent by (rule outer_loop_consistent)
  have fst_rw: "map fst (missing_rewards r) = unmatched_secondary_indices st"
    by (simp add: rw loc_def comp_def)
  have fst_ev: "map fst (missing_events r) = unmatched_primary_indices st"
    by (simp add: ev map_fst_loc)
  have id: "sec_Event_ID (res_secondary r ! j) = sec_Event_ID (secondary st ! j)"
    if "j < length secondary0" for j
    using that len by (simp add: sec add_secondary_col_simps)
  have ex_id: "(\<exists>j < length secondary0. sec_Event_ID (res_secondary r ! j) = Some e) =
      (\<exists>j < length secondary0. sec_Event_ID (secondary st ! j) = Some e)" for e
  proof
    assume "\<exists>j < length secondary0. sec_Event_ID (res_secondary r ! j) = Some e"
    then obtain j where j: "j < length secondary0"
      and "sec_Event_ID (res_secondary r ! j) = Some e" by blast
    with id [OF j] have "sec_Event_ID (secondary st ! j) = Some e" by simp
    with j show "\<exists>j < length secondary0. sec_Event_ID (secondary st ! j) = Some e" by blast
  next
    assume "\<exists>j < length secondary0. sec_Event_ID (secondary st ! j) = Some e"
    then obtain j where j: "j < length secondary0"
      and "sec_Event_ID (secondary st ! j) = Some e" by blast
    with id [OF j] have "sec_Event_ID (res_secondary r ! j) = Some e" by simp
    with j show "\<exists>j < length secondary0. sec_Event_ID (res_secondary r ! j) = Some e" by blast
  qed
  have c1: "length (res_secondary r) = length secondary0" by (simp add: sec len)
  have c2: "distinct (map fst (missing_rewards r))"
    using cons by (simp add: fst_rw consistent_def)
  have c3: "\<forall>j < length secondary0.
       (sec_Event_ID (res_secondary r ! j) \<noteq> None) \<noteq> (j \<in> set (map fst (missing_rewards r)))"
    using cons len by (simp add: fst_rw id consistent_def)
  have c4: "distinct (map fst (missing_events r))"
    unfolding fst_ev
    using run by (rule outer_loop_primary_distinct) (simp add: initial_state_simps)
  have some: "i \<in> set (unmatched_primary_indices st) \<or>
       (\<exists>j < length secondary0. sec_Event_ID (secondary st ! j) = Some (Event_ID (primary ! i)))"
    if i: "i < length primary" for i
  proof (cases "i \<in> set (unmatched_primary_indices st)")
    case True
    then show ?thesis by simp
  next
    case False
    have "\<exists>j < length (secondary ?st0). sec_Event_ID (secondary st ! j) = Some (Event_ID (primary ! i))"
      using run initial_state_consistent
    proof (rule matched_is_assigned)
      show "distinct (map fst (enumerate 0 primary))" by (simp add: map_fst_enumerate_0)
      show "(i, primary ! i) \<in> set (enumerate 0 primary)" using i by (simp add: enumerate_nth)
      show "i \<in> set (unmatched_primary_indices ?st0)" using i by (simp add: initial_state_simps)
      show "i \<notin> set (unmatched_primary_indices st)" by fact
    qed
    then show ?thesis by (simp add: initial_state_simps)
  qed
  have c5: "\<forall>i < length primary.
       i \<in> set (map fst (missing_events r)) \<or>
       (\<exists>j < length secondary0.
          sec_Event_ID (res_secondary r ! j) = Some (Event_ID (primary ! i)))"
  proof (intro allI impI)
    fix i
    assume "i < length primary"
    from some [OF this] show "i \<in> set (map fst (missing_events r)) \<or>
       (\<exists>j < length secondary0.
          sec_Event_ID (res_secondary r ! j) = Some (Event_ID (primary ! i)))"
      by (simp add: fst_ev ex_id)
  qed
  have not_both: "\<not> (i \<in> set (unmatched_primary_indices st) \<and>
       (\<exists>j < length secondary0. sec_Event_ID (secondary st ! j) = Some (Event_ID (primary ! i))))"
    if i: "i < length primary" and d: "distinct (map Event_ID primary)" for i
  proof
    assume "i \<in> set (unmatched_primary_indices st) \<and>
       (\<exists>j < length secondary0. sec_Event_ID (secondary st ! j) = Some (Event_ID (primary ! i)))"
    then obtain j where un: "i \<in> set (unmatched_primary_indices st)"
      and j: "j < length secondary0"
      and a: "sec_Event_ID (secondary st ! j) = Some (Event_ID (primary ! i))" by blast
    have "sec_Event_ID (secondary ?st0 ! j) = Some (Event_ID (primary ! i)) \<or>
       (\<exists>ip \<in> set (enumerate 0 primary). Event_ID (primary ! i) = Event_ID (snd ip) \<and>
          fst ip \<notin> set (unmatched_primary_indices st))"
      using run
    proof (rule assigned_from_matched)
      show "distinct (unmatched_primary_indices ?st0)" by (simp add: initial_state_simps)
      show "j < length (secondary ?st0)" using j by (simp add: initial_state_simps)
      show "sec_Event_ID (secondary st ! j) = Some (Event_ID (primary ! i))" by fact
    qed
    with j obtain ip where ip: "ip \<in> set (enumerate 0 primary)"
      and e: "Event_ID (primary ! i) = Event_ID (snd ip)"
      and m: "fst ip \<notin> set (unmatched_primary_indices st)"
      by (auto simp: initial_state_simps)
    from ip have "fst ip < length primary \<and> snd ip = primary ! fst ip"
      by (auto simp: in_set_enumerate_eq)
    then have k: "fst ip < length primary" and s: "snd ip = primary ! fst ip"
      by simp_all
    from e s have eq: "map Event_ID primary ! i = map Event_ID primary ! fst ip"
      using i k by simp
    have "(map Event_ID primary ! i = map Event_ID primary ! fst ip) = (i = fst ip)"
      using d i k by (intro nth_eq_iff_index_eq) simp_all
    with eq have "i = fst ip" by blast
    with m un show False by simp
  qed
  have c6: "distinct (map Event_ID primary) \<longrightarrow>
       (\<forall>i < length primary.
          (i \<in> set (map fst (missing_events r))) \<noteq>
          (\<exists>j < length secondary0.
             sec_Event_ID (res_secondary r ! j) = Some (Event_ID (primary ! i))))"
  proof (intro impI allI)
    fix i
    assume d: "distinct (map Event_ID primary)" and i: "i < length primary"
    from some [OF i] not_both [OF i d]
    have "(i \<in> set (unmatched_primary_indices st)) \<noteq>
       (\<exists>j < length secondary0. sec_Event_ID (secondary st ! j) = Some (Event_ID (primary ! i)))"
      by blast
    then show "(i \<in> set (map fst (missing_events r))) \<noteq>
          (\<exists>j < length secondary0.
             sec_Event_ID (res_secondary r ! j) = Some (Event_ID (primary ! i)))"
      by (simp add: fst_ev ex_id)
  qed
  show ?thesis by (intro conjI c1 c2 c3 c4 c5 c6)
qed

theorem outputs_partition_the_frames_witness:
  "match_data demo_primary demo_secondary = Inr demo_result \<and>
   distinct (map Event_ID demo_primary) \<and>
   length (res_secondary demo_result) = 4 \<and>
   sec_Event_ID (res_secondary demo_result ! 1) = Some ''E7'' \<and>
   1 \<notin> set (map fst (missing_rewards demo_result)) \<and>
   sec_Event_ID (res_secondary demo_result ! 0) = None \<and>
   0 \<in> set (map fst (missing_rewards demo_result)) \<and>
   2 \<in> set (map fst (missing_events demo_result)) \<and>
   \<not> (\<exists>j < length demo_secondary.
          sec_Event_ID (res_secondary demo_result ! j) = Some (Event_ID (demo_primary ! 2))) \<and>
   0 \<notin> set (map fst (missing_events demo_result)) \<and>
   (\<exists>j < length demo_secondary.
          sec_Event_ID (res_secondary demo_result ! j) = Some (Event_ID (demo_primary ! 0)))"
proof -
  note t = outputs_partition_the_frames [OF demo_run]
  have l: "(0::nat) < length demo_secondary" "(1::nat) < length demo_secondary"
    "(0::nat) < length demo_primary" "(2::nat) < length demo_primary"
    by (simp_all add: demo_missing)
  have e1: "sec_Event_ID (res_secondary demo_result ! 1) = Some ''E7''"
    and e0: "sec_Event_ID (res_secondary demo_result ! 0) = None" by code_simp+
  have m2: "2 \<in> set (map fst (missing_events demo_result))"
    and m0: "0 \<notin> set (map fst (missing_events demo_result))" by (simp_all add: demo_missing)
  from t have a: "length (res_secondary demo_result) = 4" by (simp add: demo_missing)
  from t l(2) have "(sec_Event_ID (res_secondary demo_result ! 1) \<noteq> None) \<noteq>
      (1 \<in> set (map fst (missing_rewards demo_result)))" by blast
  with e1 have b: "1 \<notin> set (map fst (missing_rewards demo_result))" by simp
  from t l(1) have "(sec_Event_ID (res_secondary demo_result ! 0) \<noteq> None) \<noteq>
      (0 \<in> set (map fst (missing_rewards demo_result)))" by blast
  with e0 have c: "0 \<in> set (map fst (missing_rewards demo_result))" by simp
  from t demo_distinct l(4) have "(2 \<in> set (map fst (missing_events demo_result))) \<noteq>
      (\<exists>j < length demo_secondary.
          sec_Event_ID (res_secondary demo_result ! j) = Some (Event_ID (demo_primary ! 2)))"
    by blast
  with m2 have d: "\<not> (\<exists>j < length demo_secondary.
          sec_Event_ID (res_secondary demo_result ! j) = Some (Event_ID (demo_primary ! 2)))"
    by simp
  from t l(3) have "0 \<in> set (map fst (missing_events demo_result)) \<or>
      (\<exists>j < length demo_secondary.
          sec_Event_ID (res_secondary demo_result ! j) = Some (Event_ID (demo_primary ! 0)))"
    by blast
  with m0 have e: "\<exists>j < length demo_secondary.
          sec_Event_ID (res_secondary demo_result ! j) = Some (Event_ID (demo_primary ! 0))"
    by simp
  show ?thesis by (intro conjI demo_run demo_distinct a e1 b e0 c m2 d m0 e)
qed

text \<open>
  C7 (order determinism). Take a reward and a payout that fit each other, the reward
  being the first of the primary frame that fits the payout and the payout the first
  of the secondary frame that fits the reward. Then, in frames of any size, the run
  returns when every row has its \<open>'last_10_digits'\<close> text, and in every run that
  returns the payout carries the identifier of that reward, neither of the two is
  reported unmatched, every later reward that fits no other payout is among the
  missing events, and with distinct identifiers no other payout carries the reward's
  identifier. More generally, once a reward that fits a payout and none before it has
  had its turn, the payout is taken, by that reward or by one before it, and a later
  reward that fits no other payout is among the missing events. With distinct
  identifiers a reward receives exactly the first fitting payout that no earlier reward
  has taken: it receives a fitting payout when every fitting payout before it carries
  the identifier of an earlier reward and the payout itself does not, and conversely,
  when a payout carries the identifier of a reward, every fitting payout before it
  carries the identifier of an earlier reward and every earlier reward that fits the
  payout has been matched. In particular, with a single payout the first reward that
  fits it receives it and every other reward is among the missing events; and the
  first reward of the primary frame takes the first payout that fits it, whatever
  payouts after it fit too.
\<close>

theorem first_fit_in_input_order:
  "(x < length primary_frame \<and> y < length payout_frame \<and>
    is_match (primary_frame ! x) (payout_frame ! y) = Inr True \<and>
    (\<forall>k < x. is_match (primary_frame ! k) (payout_frame ! y) \<noteq> Inr True) \<and>
    (\<forall>k < y. is_match (primary_frame ! x) (payout_frame ! k) \<noteq> Inr True) \<longrightarrow>
      (list_all suffix_is_text primary_frame \<longrightarrow>
         (\<exists>r. match_data primary_frame payout_frame = Inr r)) \<and>
      (\<forall>out. match_data primary_frame payout_frame = Inr out \<longrightarrow>
         sec_Event_ID (res_secondary out ! y) = Some (Event_ID (primary_frame ! x)) \<and>
         x \<notin> set (map fst (missing_events out)) \<and>
         y \<notin> set (map fst (missing_rewards out)) \<and>
         (\<forall>z < length primary_frame.
            x < z \<and> (\<forall>k < length payout_frame. k \<noteq> y \<longrightarrow>
                       is_match (primary_frame ! z) (payout_frame ! k) \<noteq> Inr True) \<longrightarrow>
            (z, primary_frame ! z) \<in> set (missing_events out)) \<and>
         (distinct (map Event_ID primary_frame) \<longrightarrow>
            (\<forall>k < length payout_frame. k \<noteq> y \<longrightarrow>
               sec_Event_ID (res_secondary out ! k) \<noteq> Some (Event_ID (primary_frame ! x)))))) \<and>
   (earlier < later \<and> later < length reward_rows \<and> target < length payout_rows \<and>
    is_match (reward_rows ! earlier) (payout_rows ! target) = Inr True \<and>
    (\<forall>k < target. is_match (reward_rows ! earlier) (payout_rows ! k) \<noteq> Inr True) \<and>
    (\<forall>k < length payout_rows. k \<noteq> target \<longrightarrow>
        is_match (reward_rows ! later) (payout_rows ! k) \<noteq> Inr True) \<and>
    match_data reward_rows payout_rows = Inr outcome \<longrightarrow>
      (later, reward_rows ! later) \<in> set (missing_events outcome) \<and>
      target \<notin> set (map fst (missing_rewards outcome)) \<and>
      (\<exists>w \<le> earlier. sec_Event_ID (res_secondary outcome ! target) =
          Some (Event_ID (reward_rows ! w)))) \<and>
   (distinct (map Event_ID events) \<and> match_data events orders = Inr result \<and>
    u < length events \<and> v < length orders \<and>
    is_match (events ! u) (orders ! v) = Inr True \<and>
    (\<forall>k < v. is_match (events ! u) (orders ! k) = Inr True \<longrightarrow>
        (\<exists>w < u. sec_Event_ID (res_secondary result ! k) = Some (Event_ID (events ! w)))) \<and>
    (\<forall>w < u. sec_Event_ID (res_secondary result ! v) \<noteq> Some (Event_ID (events ! w))) \<longrightarrow>
      sec_Event_ID (res_secondary result ! v) = Some (Event_ID (events ! u))) \<and>
   (i < length primary \<and> is_match (primary ! i) s = Inr True \<and>
    (\<forall>k < i. is_match (primary ! k) s = Inr False) \<longrightarrow>
      (\<exists>r. match_data primary [s] = Inr r \<and>
           map sec_Event_ID (res_secondary r) = [Some (Event_ID (primary ! i))] \<and>
           map fst (missing_events r) = remove1 i [0 ..< length primary] \<and>
           missing_rewards r = [] \<and>
           (\<forall>k < length primary. k \<noteq> i \<longrightarrow> (k, primary ! k) \<in> set (missing_events r)))) \<and>
   (j < length secondary_frame \<and> is_match p (secondary_frame ! j) = Inr True \<and>
    (\<forall>k < j. is_match p (secondary_frame ! k) = Inr False) \<and>
    match_data (p # rest) secondary_frame = Inr r' \<longrightarrow>
      sec_Event_ID (res_secondary r' ! j) = Some (Event_ID p) \<and>
      0 \<notin> set (map fst (missing_events r')) \<and>
      j \<notin> set (map fst (missing_rewards r')) \<and>
      (distinct (map Event_ID (p # rest)) \<longrightarrow>
         (\<forall>k < length secondary_frame. k \<noteq> j \<longrightarrow>
            sec_Event_ID (res_secondary r' ! k) \<noteq> Some (Event_ID p)))) \<and>
   (distinct (map Event_ID rewards) \<and> match_data rewards payouts = Inr res \<and>
    a < length rewards \<and> b < length payouts \<and>
    sec_Event_ID (res_secondary res ! b) = Some (Event_ID (rewards ! a)) \<longrightarrow>
      (\<forall>k < b. is_match (rewards ! a) (payouts ! k) = Inr True \<longrightarrow>
          (\<exists>a' < a. sec_Event_ID (res_secondary res ! k) = Some (Event_ID (rewards ! a')))) \<and>
      (\<forall>a' < a. is_match (rewards ! a') (payouts ! b) = Inr True \<longrightarrow>
          a' \<notin> set (map fst (missing_events res))))"
proof (intro conjI)
  show "x < length primary_frame \<and> y < length payout_frame \<and>
    is_match (primary_frame ! x) (payout_frame ! y) = Inr True \<and>
    (\<forall>k < x. is_match (primary_frame ! k) (payout_frame ! y) \<noteq> Inr True) \<and>
    (\<forall>k < y. is_match (primary_frame ! x) (payout_frame ! k) \<noteq> Inr True) \<longrightarrow>
      (list_all suffix_is_text primary_frame \<longrightarrow>
         (\<exists>r. match_data primary_frame payout_frame = Inr r)) \<and>
      (\<forall>out. match_data primary_frame payout_frame = Inr out \<longrightarrow>
         sec_Event_ID (res_secondary out ! y) = Some (Event_ID (primary_frame ! x)) \<and>
         x \<notin> set (map fst (missing_events out)) \<and>
         y \<notin> set (map fst (missing_rewards out)) \<and>
         (\<forall>z < length primary_frame.
            x < z \<and> (\<forall>k < length payout_frame. k \<noteq> y \<longrightarrow>
                       is_match (primary_frame ! z) (payout_frame ! k) \<noteq> Inr True) \<longrightarrow>
            (z, primary_frame ! z) \<in> set (missing_events out)) \<and>
         (distinct (map Event_ID primary_frame) \<longrightarrow>
            (\<forall>k < length payout_frame. k \<noteq> y \<longrightarrow>
               sec_Event_ID (res_secondary out ! k) \<noteq> Some (Event_ID (primary_frame ! x)))))"
  proof
    assume h: "x < length primary_frame \<and> y < length payout_frame \<and>
    is_match (primary_frame ! x) (payout_frame ! y) = Inr True \<and>
    (\<forall>k < x. is_match (primary_frame ! k) (payout_frame ! y) \<noteq> Inr True) \<and>
    (\<forall>k < y. is_match (primary_frame ! x) (payout_frame ! k) \<noteq> Inr True)"
    then have h1: "x < length primary_frame" and h2: "y < length payout_frame"
      and h3: "is_match (primary_frame ! x) (payout_frame ! y) = Inr True"
      and h4: "\<forall>k < x. is_match (primary_frame ! k) (payout_frame ! y) \<noteq> Inr True"
      and h5: "\<forall>k < y. is_match (primary_frame ! x) (payout_frame ! k) \<noteq> Inr True"
      by simp_all
    have t: "list_all suffix_is_text primary_frame \<longrightarrow>
         (\<exists>r. match_data primary_frame payout_frame = Inr r)"
      by (intro impI) (rule match_data_returns)
    have g: "\<forall>out. match_data primary_frame payout_frame = Inr out \<longrightarrow>
         sec_Event_ID (res_secondary out ! y) = Some (Event_ID (primary_frame ! x)) \<and>
         x \<notin> set (map fst (missing_events out)) \<and>
         y \<notin> set (map fst (missing_rewards out)) \<and>
         (\<forall>z < length primary_frame.
            x < z \<and> (\<forall>k < length payout_frame. k \<noteq> y \<longrightarrow>
                       is_match (primary_frame ! z) (payout_frame ! k) \<noteq> Inr True) \<longrightarrow>
            (z, primary_frame ! z) \<in> set (missing_events out)) \<and>
         (distinct (map Event_ID primary_frame) \<longrightarrow>
            (\<forall>k < length payout_frame. k \<noteq> y \<longrightarrow>
               sec_Event_ID (res_secondary out ! k) \<noteq> Some (Event_ID (primary_frame ! x))))"
    proof (intro allI impI)
      fix out
      assume r: "match_data primary_frame payout_frame = Inr out"
      show "sec_Event_ID (res_secondary out ! y) = Some (Event_ID (primary_frame ! x)) \<and>
         x \<notin> set (map fst (missing_events out)) \<and>
         y \<notin> set (map fst (missing_rewards out)) \<and>
         (\<forall>z < length primary_frame.
            x < z \<and> (\<forall>k < length payout_frame. k \<noteq> y \<longrightarrow>
                       is_match (primary_frame ! z) (payout_frame ! k) \<noteq> Inr True) \<longrightarrow>
            (z, primary_frame ! z) \<in> set (missing_events out)) \<and>
         (distinct (map Event_ID primary_frame) \<longrightarrow>
            (\<forall>k < length payout_frame. k \<noteq> y \<longrightarrow>
               sec_Event_ID (res_secondary out ! k) \<noteq> Some (Event_ID (primary_frame ! x))))"
        using h1 h2 h3 h4 h5 r by (rule first_fitting_reward_gets_payout)
    qed
    from t g show "(list_all suffix_is_text primary_frame \<longrightarrow>
         (\<exists>r. match_data primary_frame payout_frame = Inr r)) \<and>
      (\<forall>out. match_data primary_frame payout_frame = Inr out \<longrightarrow>
         sec_Event_ID (res_secondary out ! y) = Some (Event_ID (primary_frame ! x)) \<and>
         x \<notin> set (map fst (missing_events out)) \<and>
         y \<notin> set (map fst (missing_rewards out)) \<and>
         (\<forall>z < length primary_frame.
            x < z \<and> (\<forall>k < length payout_frame. k \<noteq> y \<longrightarrow>
                       is_match (primary_frame ! z) (payout_frame ! k) \<noteq> Inr True) \<longrightarrow>
            (z, primary_frame ! z) \<in> set (missing_events out)) \<and>
         (distinct (map Event_ID primary_frame) \<longrightarrow>
            (\<forall>k < length payout_frame. k \<noteq> y \<longrightarrow>
               sec_Event_ID (res_secondary out ! k) \<noteq> Some (Event_ID (primary_frame ! x)))))"
      by (rule conjI)
  qed
  show "earlier < later \<and> later < length reward_rows \<and> target < length payout_rows \<and>
    is_match (reward_rows ! earlier) (payout_rows ! target) = Inr True \<and>
    (\<forall>k < target. is_match (reward_rows ! earlier) (payout_rows ! k) \<noteq> Inr True) \<and>
    (\<forall>k < length payout_rows. k \<noteq> target \<longrightarrow>
        is_match (reward_rows ! later) (payout_rows ! k) \<noteq> Inr True) \<and>
    match_data reward_rows payout_rows = Inr outcome \<longrightarrow>
      (later, reward_rows ! later) \<in> set (missing_events outcome) \<and>
      target \<notin> set (map fst (missing_rewards outcome)) \<and>
      (\<exists>w \<le> earlier. sec_Event_ID (res_secondary outcome ! target) =
          Some (Event_ID (reward_rows ! w)))"
  proof
    assume h: "earlier < later \<and> later < length reward_rows \<and> target < length payout_rows \<and>
    is_match (reward_rows ! earlier) (payout_rows ! target) = Inr True \<and>
    (\<forall>k < target. is_match (reward_rows ! earlier) (payout_rows ! k) \<noteq> Inr True) \<and>
    (\<forall>k < length payout_rows. k \<noteq> target \<longrightarrow>
        is_match (reward_rows ! later) (payout_rows ! k) \<noteq> Inr True) \<and>
    match_data reward_rows payout_rows = Inr outcome"
    then have h1: "earlier < later" and h2: "later < length reward_rows"
      and h3: "target < length payout_rows"
      and h4: "is_match (reward_rows ! earlier) (payout_rows ! target) = Inr True"
      and h5: "\<forall>k < target. is_match (reward_rows ! earlier) (payout_rows ! k) \<noteq> Inr True"
      and h6: "\<forall>k < length payout_rows. k \<noteq> target \<longrightarrow>
        is_match (reward_rows ! later) (payout_rows ! k) \<noteq> Inr True"
      and h7: "match_data reward_rows payout_rows = Inr outcome"
      by simp_all
    show "(later, reward_rows ! later) \<in> set (missing_events outcome) \<and>
      target \<notin> set (map fst (missing_rewards outcome)) \<and>
      (\<exists>w \<le> earlier. sec_Event_ID (res_secondary outcome ! target) =
          Some (Event_ID (reward_rows ! w)))"
      using h1 h2 h3 h4 h5 h6 h7 by (rule later_reward_of_taken_payout_unmatched)
  qed
  show "distinct (map Event_ID events) \<and> match_data events orders = Inr result \<and>
    u < length events \<and> v < length orders \<and>
    is_match (events ! u) (orders ! v) = Inr True \<and>
    (\<forall>k < v. is_match (events ! u) (orders ! k) = Inr True \<longrightarrow>
        (\<exists>w < u. sec_Event_ID (res_secondary result ! k) = Some (Event_ID (events ! w)))) \<and>
    (\<forall>w < u. sec_Event_ID (res_secondary result ! v) \<noteq> Some (Event_ID (events ! w))) \<longrightarrow>
      sec_Event_ID (res_secondary result ! v) = Some (Event_ID (events ! u))"
  proof
    assume h: "distinct (map Event_ID events) \<and> match_data events orders = Inr result \<and>
    u < length events \<and> v < length orders \<and>
    is_match (events ! u) (orders ! v) = Inr True \<and>
    (\<forall>k < v. is_match (events ! u) (orders ! k) = Inr True \<longrightarrow>
        (\<exists>w < u. sec_Event_ID (res_secondary result ! k) = Some (Event_ID (events ! w)))) \<and>
    (\<forall>w < u. sec_Event_ID (res_secondary result ! v) \<noteq> Some (Event_ID (events ! w)))"
    then have h1: "distinct (map Event_ID events)"
      and h2: "match_data events orders = Inr result"
      and h3: "u < length events" and h4: "v < length orders"
      and h5: "is_match (events ! u) (orders ! v) = Inr True"
      and h6: "\<forall>k < v. is_match (events ! u) (orders ! k) = Inr True \<longrightarrow>
        (\<exists>w < u. sec_Event_ID (res_secondary result ! k) = Some (Event_ID (events ! w)))"
      and h7: "\<forall>w < u. sec_Event_ID (res_secondary result ! v) \<noteq> Some (Event_ID (events ! w))"
      by simp_all
    show "sec_Event_ID (res_secondary result ! v) = Some (Event_ID (events ! u))"
      using h1 h2 h3 h4 h5 h6 h7 by (rule reward_takes_first_free_fitting_payout)
  qed
  show "i < length primary \<and> is_match (primary ! i) s = Inr True \<and>
    (\<forall>k < i. is_match (primary ! k) s = Inr False) \<longrightarrow>
      (\<exists>r. match_data primary [s] = Inr r \<and>
           map sec_Event_ID (res_secondary r) = [Some (Event_ID (primary ! i))] \<and>
           map fst (missing_events r) = remove1 i [0 ..< length primary] \<and>
           missing_rewards r = [] \<and>
           (\<forall>k < length primary. k \<noteq> i \<longrightarrow> (k, primary ! k) \<in> set (missing_events r)))"
    by (rule conjunct1 [OF first_fit_two_frames])
  show "j < length secondary_frame \<and> is_match p (secondary_frame ! j) = Inr True \<and>
    (\<forall>k < j. is_match p (secondary_frame ! k) = Inr False) \<and>
    match_data (p # rest) secondary_frame = Inr r' \<longrightarrow>
      sec_Event_ID (res_secondary r' ! j) = Some (Event_ID p) \<and>
      0 \<notin> set (map fst (missing_events r')) \<and>
      j \<notin> set (map fst (missing_rewards r')) \<and>
      (distinct (map Event_ID (p # rest)) \<longrightarrow>
         (\<forall>k < length secondary_frame. k \<noteq> j \<longrightarrow>
            sec_Event_ID (res_secondary r' ! k) \<noteq> Some (Event_ID p)))"
    by (rule conjunct2 [OF first_fit_two_frames])
  show "distinct (map Event_ID rewards) \<and> match_data rewards payouts = Inr res \<and>
    a < length rewards \<and> b < length payouts \<and>
    sec_Event_ID (res_secondary res ! b) = Some (Event_ID (rewards ! a)) \<longrightarrow>
      (\<forall>k < b. is_match (rewards ! a) (payouts ! k) = Inr True \<longrightarrow>
          (\<exists>a' < a. sec_Event_ID (res_secondary res ! k) = Some (Event_ID (rewards ! a')))) \<and>
      (\<forall>a' < a. is_match (rewards ! a') (payouts ! b) = Inr True \<longrightarrow>
          a' \<notin> set (map fst (missing_events res)))"
  proof
    assume h: "distinct (map Event_ID rewards) \<and> match_data rewards payouts = Inr res \<and>
    a < length rewards \<and> b < length payouts \<and>
    sec_Event_ID (res_secondary res ! b) = Some (Event_ID (rewards ! a))"
    then have h1: "distinct (map Event_ID rewards)"
      and h2: "match_data rewards payouts = Inr res"
      and h3: "a < length rewards" and h4: "b < length payouts"
      and h5: "sec_Event_ID (res_secondary res ! b) = Some (Event_ID (rewards ! a))"
      by simp_all
    show "(\<forall>k < b. is_match (rewards ! a) (payouts ! k) = Inr True \<longrightarrow>
          (\<exists>a' < a. sec_Event_ID (res_secondary res ! k) = Some (Event_ID (rewards ! a')))) \<and>
      (\<forall>a' < a. is_match (rewards ! a') (payouts ! b) = Inr True \<longrightarrow>
          a' \<notin> set (map fst (missing_events res)))"
      using h1 h2 h3 h4 h5 by (rule order_of_assignments)
  qed
qed

theorem first_fit_in_input_order_witness:
  "(1::nat) < length queue_rewards \<and> (1::nat) < length queue_payouts \<and>
   is_match (queue_rewards ! 0) (queue_payouts ! 1) = Inr False \<and>
   is_match (queue_rewards ! 1) (queue_payouts ! 0) = Inr False \<and>
   is_match (queue_rewards ! 1) (queue_payouts ! 1) = Inr True \<and>
   is_match (queue_rewards ! 2) (queue_payouts ! 0) = Inr False \<and>
   is_match (queue_rewards ! 2) (queue_payouts ! 1) = Inr True \<and>
   (\<exists>r. match_data queue_rewards queue_payouts = Inr r \<and>
        sec_Event_ID (res_secondary r ! 1) = Some ''E7'' \<and>
        1 \<notin> set (map fst (missing_events r)) \<and>
        (2, queue_rewards ! 2) \<in> set (missing_events r)) \<and>
   (3::nat) < length relay_rewards \<and> (1::nat) < length relay_payouts \<and>
   match_data relay_rewards relay_payouts = Inr relay_result \<and>
   is_match (relay_rewards ! 2) (relay_payouts ! 0) = Inr False \<and>
   is_match (relay_rewards ! 2) (relay_payouts ! 1) = Inr True \<and>
   is_match (relay_rewards ! 3) (relay_payouts ! 0) = Inr False \<and>
   is_match (relay_rewards ! 3) (relay_payouts ! 1) = Inr True \<and>
   (3, relay_rewards ! 3) \<in> set (missing_events relay_result) \<and>
   1 \<notin> set (map fst (missing_rewards relay_result)) \<and>
   (\<exists>w \<le> 2. sec_Event_ID (res_secondary relay_result ! 1) =
      Some (Event_ID (relay_rewards ! w))) \<and>
   distinct (map Event_ID relay_rewards) \<and>
   is_match (relay_rewards ! 1) (relay_payouts ! 0) = Inr True \<and>
   is_match (relay_rewards ! 1) (relay_payouts ! 1) = Inr True \<and>
   sec_Event_ID (res_secondary relay_result ! 0) = Some (Event_ID (relay_rewards ! 0)) \<and>
   sec_Event_ID (res_secondary relay_result ! 1) \<noteq> Some (Event_ID (relay_rewards ! 0)) \<and>
   sec_Event_ID (res_secondary relay_result ! 1) = Some ''E8'' \<and>
   (0::nat) < length twin_rewards \<and>
   is_match (twin_rewards ! 0) (vip_payout 1) = Inr True \<and>
   is_match (twin_rewards ! 1) (vip_payout 1) = Inr True \<and>
   (\<exists>r. match_data twin_rewards [vip_payout 1] = Inr r \<and>
        map sec_Event_ID (res_secondary r) = [Some ''E7''] \<and>
        (1, twin_rewards ! 1) \<in> set (missing_events r) \<and>
        missing_rewards r = []) \<and>
   (1::nat) < length three_payouts \<and>
   is_match vip (three_payouts ! 0) = Inr False \<and>
   is_match vip (three_payouts ! 1) = Inr True \<and>
   is_match vip (three_payouts ! 2) = Inr True \<and>
   (\<exists>r. match_data [vip] three_payouts = Inr r \<and>
        sec_Event_ID (res_secondary r ! 1) = Some ''E7'' \<and>
        sec_Event_ID (res_secondary r ! 2) \<noteq> Some ''E7'' \<and>
        0 \<notin> set (map fst (missing_events r)) \<and>
        1 \<notin> set (map fst (missing_rewards r))) \<and>
   distinct (map Event_ID demo_primary) \<and>
   match_data demo_primary demo_secondary = Inr demo_result \<and>
   sec_Event_ID (res_secondary demo_result ! 3) = Some (Event_ID (demo_primary ! 1)) \<and>
   is_match (demo_primary ! 1) (demo_secondary ! 1) = Inr True \<and>
   (\<exists>a' < 1. sec_Event_ID (res_secondary demo_result ! 1) = Some (Event_ID (demo_primary ! a'))) \<and>
   is_match (demo_primary ! 0) (demo_secondary ! 3) = Inr True \<and>
   0 \<notin> set (map fst (missing_events demo_result))"
proof -
  note q = queue_facts
  note l = relay_facts
  note f = twin_rewards_facts
  note g = three_payouts_facts
  note o = demo_order_facts
  note first_pair = first_fit_in_input_order
    [where x = 1 and y = 1 and primary_frame = queue_rewards and payout_frame = queue_payouts,
      THEN conjunct1, THEN mp]
  have f1: "\<forall>k < (1::nat). is_match (queue_rewards ! k) (queue_payouts ! 1) \<noteq> Inr True"
    using q(4) by simp
  have f2: "\<forall>k < (1::nat). is_match (queue_rewards ! 1) (queue_payouts ! k) \<noteq> Inr True"
    using q(5) by simp
  have "(list_all suffix_is_text queue_rewards \<longrightarrow>
         (\<exists>r. match_data queue_rewards queue_payouts = Inr r)) \<and>
      (\<forall>out. match_data queue_rewards queue_payouts = Inr out \<longrightarrow>
         sec_Event_ID (res_secondary out ! 1) = Some (Event_ID (queue_rewards ! 1)) \<and>
         1 \<notin> set (map fst (missing_events out)) \<and>
         1 \<notin> set (map fst (missing_rewards out)) \<and>
         (\<forall>z < length queue_rewards.
            1 < z \<and> (\<forall>k < length queue_payouts. k \<noteq> 1 \<longrightarrow>
                       is_match (queue_rewards ! z) (queue_payouts ! k) \<noteq> Inr True) \<longrightarrow>
            (z, queue_rewards ! z) \<in> set (missing_events out)) \<and>
         (distinct (map Event_ID queue_rewards) \<longrightarrow>
            (\<forall>k < length queue_payouts. k \<noteq> 1 \<longrightarrow>
               sec_Event_ID (res_secondary out ! k) \<noteq> Some (Event_ID (queue_rewards ! 1)))))"
    by (rule first_pair) (intro conjI q(1) q(2) q(3) f1 f2)
  then have t: "list_all suffix_is_text queue_rewards \<longrightarrow>
         (\<exists>r. match_data queue_rewards queue_payouts = Inr r)"
    and gq: "\<forall>out. match_data queue_rewards queue_payouts = Inr out \<longrightarrow>
         sec_Event_ID (res_secondary out ! 1) = Some (Event_ID (queue_rewards ! 1)) \<and>
         1 \<notin> set (map fst (missing_events out)) \<and>
         1 \<notin> set (map fst (missing_rewards out)) \<and>
         (\<forall>z < length queue_rewards.
            1 < z \<and> (\<forall>k < length queue_payouts. k \<noteq> 1 \<longrightarrow>
                       is_match (queue_rewards ! z) (queue_payouts ! k) \<noteq> Inr True) \<longrightarrow>
            (z, queue_rewards ! z) \<in> set (missing_events out)) \<and>
         (distinct (map Event_ID queue_rewards) \<longrightarrow>
            (\<forall>k < length queue_payouts. k \<noteq> 1 \<longrightarrow>
               sec_Event_ID (res_secondary out ! k) \<noteq> Some (Event_ID (queue_rewards ! 1))))"
    by simp_all
  from t q(8) obtain r where r: "match_data queue_rewards queue_payouts = Inr r" by blast
  from gq r have g1: "sec_Event_ID (res_secondary r ! 1) = Some (Event_ID (queue_rewards ! 1))"
    and g2: "1 \<notin> set (map fst (missing_events r))"
    and g4: "\<forall>z < length queue_rewards.
            1 < z \<and> (\<forall>k < length queue_payouts. k \<noteq> 1 \<longrightarrow>
                       is_match (queue_rewards ! z) (queue_payouts ! k) \<noteq> Inr True) \<longrightarrow>
            (z, queue_rewards ! z) \<in> set (missing_events r)"
    by simp_all
  have only: "\<forall>k < length queue_payouts. k \<noteq> 1 \<longrightarrow>
      is_match (queue_rewards ! 2) (queue_payouts ! k) \<noteq> Inr True"
  proof (intro allI impI)
    fix k
    assume "k < length queue_payouts" and "k \<noteq> 1"
    with q(10) have "k = 0" by simp
    with q(7) show "is_match (queue_rewards ! 2) (queue_payouts ! k) \<noteq> Inr True" by simp
  qed
  have "(2::nat) < length queue_rewards" by (simp add: q(9))
  with g4 only have g5: "(2, queue_rewards ! 2) \<in> set (missing_events r)" by simp
  from g1 q(11) have g6: "sec_Event_ID (res_secondary r ! 1) = Some ''E7''" by simp
  have e: "\<exists>r. match_data queue_rewards queue_payouts = Inr r \<and>
        sec_Event_ID (res_secondary r ! 1) = Some ''E7'' \<and>
        1 \<notin> set (map fst (missing_events r)) \<and>
        (2, queue_rewards ! 2) \<in> set (missing_events r)"
    by (intro exI [of _ r] conjI r g6 g2 g5)
  note later_one = first_fit_in_input_order
    [where earlier = 2 and later = 3 and target = 1 and reward_rows = relay_rewards
       and payout_rows = relay_payouts and outcome = relay_result,
      THEN conjunct2, THEN conjunct1, THEN mp]
  have k1: "\<forall>k < (1::nat). is_match (relay_rewards ! 2) (relay_payouts ! k) \<noteq> Inr True"
    using l(5) by simp
  have k2: "\<forall>k < length relay_payouts. k \<noteq> 1 \<longrightarrow>
        is_match (relay_rewards ! 3) (relay_payouts ! k) \<noteq> Inr True"
  proof (intro allI impI)
    fix k
    assume "k < length relay_payouts" and "k \<noteq> 1"
    with l(4) have "k = 0" by simp
    with l(7) show "is_match (relay_rewards ! 3) (relay_payouts ! k) \<noteq> Inr True" by simp
  qed
  have k3: "(2::nat) < 3" by simp
  have "(3, relay_rewards ! 3) \<in> set (missing_events relay_result) \<and>
      1 \<notin> set (map fst (missing_rewards relay_result)) \<and>
      (\<exists>w \<le> 2. sec_Event_ID (res_secondary relay_result ! 1) =
          Some (Event_ID (relay_rewards ! w)))"
    by (rule later_one) (intro conjI k3 l(2) l(3) l(6) k1 k2 relay_run)
  then have m1: "(3, relay_rewards ! 3) \<in> set (missing_events relay_result)"
    and m2: "1 \<notin> set (map fst (missing_rewards relay_result))"
    and m3: "\<exists>w \<le> 2. sec_Event_ID (res_secondary relay_result ! 1) =
      Some (Event_ID (relay_rewards ! w))"
    by simp_all
  note free_fit = first_fit_in_input_order
    [where events = relay_rewards and orders = relay_payouts and result = relay_result
       and u = 1 and v = 1,
      THEN conjunct2, THEN conjunct2, THEN conjunct1, THEN mp]
  have n1: "\<forall>k < (1::nat). is_match (relay_rewards ! 1) (relay_payouts ! k) = Inr True \<longrightarrow>
        (\<exists>w < (1::nat). sec_Event_ID (res_secondary relay_result ! k) =
           Some (Event_ID (relay_rewards ! w)))"
    using l(12) by simp
  have n2: "\<forall>w < (1::nat). sec_Event_ID (res_secondary relay_result ! 1) \<noteq>
        Some (Event_ID (relay_rewards ! w))"
    using l(13) by simp
  have "sec_Event_ID (res_secondary relay_result ! 1) = Some (Event_ID (relay_rewards ! 1))"
    by (rule free_fit) (intro conjI relay_distinct relay_run l(1) l(3) l(11) n1 n2)
  with l(14) have n3: "sec_Event_ID (res_secondary relay_result ! 1) = Some ''E8''" by simp
  note part1 = first_fit_in_input_order
    [where i = 0 and primary = twin_rewards and s = "vip_payout 1",
      THEN conjunct2, THEN conjunct2, THEN conjunct2, THEN conjunct1, THEN mp]
  have h0: "\<forall>k < (0::nat). is_match (twin_rewards ! k) (vip_payout 1) = Inr False" by simp
  have "\<exists>r. match_data twin_rewards [vip_payout 1] = Inr r \<and>
        map sec_Event_ID (res_secondary r) = [Some (Event_ID (twin_rewards ! 0))] \<and>
        map fst (missing_events r) = remove1 0 [0 ..< length twin_rewards] \<and>
        missing_rewards r = [] \<and>
        (\<forall>k < length twin_rewards. k \<noteq> 0 \<longrightarrow> (k, twin_rewards ! k) \<in> set (missing_events r))"
    by (rule part1) (intro conjI f(1) f(2) h0)
  then obtain rt where rt: "match_data twin_rewards [vip_payout 1] = Inr rt"
    and r1: "map sec_Event_ID (res_secondary rt) = [Some (Event_ID (twin_rewards ! 0))]"
    and r2: "missing_rewards rt = []"
    and r3: "\<forall>k < length twin_rewards. k \<noteq> 0 \<longrightarrow> (k, twin_rewards ! k) \<in> set (missing_events rt)"
    by (elim exE conjE)
  from r3 f(6) have r4: "(1, twin_rewards ! 1) \<in> set (missing_events rt)" by simp
  from r1 f(4) have r5: "map sec_Event_ID (res_secondary rt) = [Some ''E7'']" by simp
  have a: "\<exists>r. match_data twin_rewards [vip_payout 1] = Inr r \<and>
        map sec_Event_ID (res_secondary r) = [Some ''E7''] \<and>
        (1, twin_rewards ! 1) \<in> set (missing_events r) \<and>
        missing_rewards r = []"
    by (intro exI [of _ rt] conjI rt r5 r4 r2)
  from match_data_returns [OF g(6), of three_payouts]
  obtain qr where qr: "match_data [vip] three_payouts = Inr qr"
    by (elim exE)
  note part2 = first_fit_in_input_order
    [where j = 1 and secondary_frame = three_payouts and p = vip and rest = "[]" and r' = qr,
      THEN conjunct2, THEN conjunct2, THEN conjunct2, THEN conjunct2, THEN conjunct1, THEN mp]
  have h1: "\<forall>k < (1::nat). is_match vip (three_payouts ! k) = Inr False" using g(2) by simp
  have "sec_Event_ID (res_secondary qr ! 1) = Some (Event_ID vip) \<and>
      0 \<notin> set (map fst (missing_events qr)) \<and>
      1 \<notin> set (map fst (missing_rewards qr)) \<and>
      (distinct (map Event_ID [vip]) \<longrightarrow>
         (\<forall>k < length three_payouts. k \<noteq> 1 \<longrightarrow>
            sec_Event_ID (res_secondary qr ! k) \<noteq> Some (Event_ID vip)))"
    by (rule part2) (intro conjI g(1) g(3) h1 qr)
  then have q1: "sec_Event_ID (res_secondary qr ! 1) = Some (Event_ID vip)"
    and q2: "0 \<notin> set (map fst (missing_events qr))"
    and q3: "1 \<notin> set (map fst (missing_rewards qr))"
    and q4: "distinct (map Event_ID [vip]) \<longrightarrow>
         (\<forall>k < length three_payouts. k \<noteq> 1 \<longrightarrow>
            sec_Event_ID (res_secondary qr ! k) \<noteq> Some (Event_ID vip))"
    by simp_all
  from q4 g(7) have "\<forall>k < length three_payouts. k \<noteq> 1 \<longrightarrow>
            sec_Event_ID (res_secondary qr ! k) \<noteq> Some (Event_ID vip)" by (rule mp)
  with g(8) have q5: "sec_Event_ID (res_secondary qr ! 2) \<noteq> Some (Event_ID vip)" by simp
  have b: "\<exists>r. match_data [vip] three_payouts = Inr r \<and>
        sec_Event_ID (res_secondary r ! 1) = Some ''E7'' \<and>
        sec_Event_ID (res_secondary r ! 2) \<noteq> Some ''E7'' \<and>
        0 \<notin> set (map fst (missing_events r)) \<and>
        1 \<notin> set (map fst (missing_rewards r))"
    using q1 q5 unfolding g(5) by (intro exI [of _ qr] conjI qr q2 q3)
  note part3 = first_fit_in_input_order
    [where rewards = demo_primary and payouts = demo_secondary and res = demo_result
       and a = 1 and b = 3,
      THEN conjunct2, THEN conjunct2, THEN conjunct2, THEN conjunct2, THEN conjunct2, THEN mp]
  have "(\<forall>k < 3. is_match (demo_primary ! 1) (demo_secondary ! k) = Inr True \<longrightarrow>
          (\<exists>a' < 1. sec_Event_ID (res_secondary demo_result ! k) =
             Some (Event_ID (demo_primary ! a')))) \<and>
      (\<forall>a' < 1. is_match (demo_primary ! a') (demo_secondary ! 3) = Inr True \<longrightarrow>
          a' \<notin> set (map fst (missing_events demo_result)))"
    by (rule part3) (intro conjI demo_distinct demo_run o(1) o(2) o(3))
  then have c1: "\<forall>k < 3. is_match (demo_primary ! 1) (demo_secondary ! k) = Inr True \<longrightarrow>
          (\<exists>a' < 1. sec_Event_ID (res_secondary demo_result ! k) =
             Some (Event_ID (demo_primary ! a')))"
    and c2: "\<forall>a' < 1. is_match (demo_primary ! a') (demo_secondary ! 3) = Inr True \<longrightarrow>
          a' \<notin> set (map fst (missing_events demo_result))"
    by simp_all
  from c1 o(4) have c3: "\<exists>a' < 1. sec_Event_ID (res_secondary demo_result ! 1) =
             Some (Event_ID (demo_primary ! a'))" by simp
  from c2 o(5) have c4: "0 \<notin> set (map fst (missing_events demo_result))" by simp
  show ?thesis
    by (intro conjI q(1) q(2) q(4) q(5) q(3) q(7) q(6) e
          l(2) l(3) relay_run l(5) l(6) l(7) l(8) m1 m2 m3
          relay_distinct l(10) l(11) l(12) l(13) n3
          f(1,2,3) a g(1,2,3,4) b demo_distinct demo_run o(3) o(4) c3 o(5) c4)
qed

text \<open>
  C8 (missing amount). The specification expects a reward without an amount to be
  reported unmatched in every run, and the run not to raise. The label
  \<open>'CASHVIP reward'\<close> names no amount, so \<open>prepare_data\<close> leaves the amount
  \<open>NaN\<close>. In a frame loaded with the columns \<open>prepare_data\<close> reads and no others,
  the condition of \<open>match_data\<close> raises \<open>KeyError\<close> at the first payout the row is
  compared with, and the run raises with it, so nothing is reported; with a column
  \<open>'last_10_digits'\<close> of numbers it raises \<open>TypeError\<close>. Only when the loaded frame
  has the column as text does the run return: the payout is left without an event, and
  the row and the payout are reported unmatched.
\<close>

theorem missing_amount_run_raises:
  "amount (prepare_primary_row no_amount_as_loaded) = None \<and>
   last_10_digits (prepare_primary_row no_amount_as_loaded) = None \<and>
   is_match (prepare_primary_row no_amount_as_loaded) (vip_payout 1) =
     Inl (KeyError ''last_10_digits'') \<and>
   prepare_and_match [no_amount_as_loaded] [vip_payout 1] = Inl (KeyError ''last_10_digits'') \<and>
   prepare_and_match [no_amount_as_loaded\<lparr>last_10_digits := Some (Number 5550001111)\<rparr>]
     [vip_payout 1] = Inl TypeError \<and>
   map_sum id (\<lambda>r. (map sec_Event_ID (res_secondary r), map fst (missing_events r),
                     map fst (missing_rewards r)))
     (prepare_and_match [no_amount_raw] [vip_payout 1]) = Inr ([None], [0], [0])"
  by code_simp


text \<open>
  C9 (frame). In every run that returns, the primary frame is returned as it was given;
  the secondary frame has the same rows in the same order with their input columns
  unchanged, the added column \<open>'secondary'\<close> only says whether \<open>'Event ID'\<close> is set, and
  every identifier written is the identifier of a primary row; the missing events and
  the missing rewards are rows of the input frames under their own labels.
\<close>

theorem matching_changes_only_the_assignment:
  assumes "match_data primary secondary0 = Inr r"
  shows "res_primary r = primary \<and>
    map input_columns (res_secondary r) = secondary0 \<and>
    map secondary_col (res_secondary r) = map (\<lambda>s. sec_Event_ID s \<noteq> None) (res_secondary r) \<and>
    (\<forall>e \<in> set (missing_events r). fst e < length primary \<and> snd e = primary ! fst e) \<and>
    (\<forall>e \<in> set (missing_rewards r). fst e < length secondary0 \<and> snd e = secondary0 ! fst e) \<and>
    (\<forall>j < length secondary0. \<forall>e. sec_Event_ID (res_secondary r ! j) = Some e \<longrightarrow>
        e \<in> set (map Event_ID primary))"
proof -
  let ?st0 = "initial_state primary secondary0"
  from match_data_Inr [OF assms] obtain st where
    run: "outer_loop (enumerate 0 primary) ?st0 = Inr st"
    and pri: "res_primary r = primary"
    and sec: "res_secondary r = map add_secondary_col (secondary st)"
    and ev: "missing_events r = loc primary (unmatched_primary_indices st)"
    and rw: "missing_rewards r =
       map (\<lambda>(j, s). (j, drop_Event_ID s)) (loc (secondary st) (unmatched_secondary_indices st))"
    by blast
  have len: "length (secondary st) = length secondary0"
    using outer_loop_length [OF run] by (simp add: initial_state_simps)
  have cols: "map input_columns (secondary st) = secondary0"
    using outer_loop_input_columns [OF run] by (simp add: initial_state_simps)
  have c2: "map input_columns (res_secondary r) = secondary0"
    using cols by (simp add: sec comp_def add_secondary_col_simps)
  have c3: "map secondary_col (res_secondary r) =
      map (\<lambda>s. sec_Event_ID s \<noteq> None) (res_secondary r)"
    by (simp add: sec comp_def add_secondary_col_simps)
  have up: "set (unmatched_primary_indices st) \<subseteq> {0 ..< length primary}"
    using outer_loop_primary_subset [OF run] by (simp add: initial_state_simps)
  have us: "set (unmatched_secondary_indices st) \<subseteq> {0 ..< length secondary0}"
    using outer_loop_secondary_subset [OF run] by (simp add: initial_state_simps)
  have c4: "\<forall>e \<in> set (missing_events r). fst e < length primary \<and> snd e = primary ! fst e"
    using up by (auto simp: ev loc_def)
  have c5: "\<forall>e \<in> set (missing_rewards r). fst e < length secondary0 \<and> snd e = secondary0 ! fst e"
  proof
    fix e
    assume "e \<in> set (missing_rewards r)"
    then obtain j where j: "j \<in> set (unmatched_secondary_indices st)"
      and e: "e = (j, input_columns (secondary st ! j))"
      by (auto simp: rw loc_def add_secondary_col_simps)
    from j us have jl: "j < length secondary0" by auto
    with len have "input_columns (secondary st ! j) = map input_columns (secondary st) ! j"
      by simp
    with cols have "input_columns (secondary st ! j) = secondary0 ! j" by simp
    with e jl show "fst e < length secondary0 \<and> snd e = secondary0 ! fst e" by simp
  qed
  have c6: "\<forall>j < length secondary0. \<forall>e. sec_Event_ID (res_secondary r ! j) = Some e \<longrightarrow>
        e \<in> set (map Event_ID primary)"
  proof (intro allI impI)
    fix j e
    assume j: "j < length secondary0" and a: "sec_Event_ID (res_secondary r ! j) = Some e"
    from j a len have a': "sec_Event_ID (secondary st ! j) = Some e"
      by (simp add: sec add_secondary_col_simps)
    have "sec_Event_ID (secondary ?st0 ! j) = Some e \<or>
       (\<exists>ip \<in> set (enumerate 0 primary). e = Event_ID (snd ip) \<and>
          fst ip \<notin> set (unmatched_primary_indices st))"
      using run
    proof (rule assigned_from_matched)
      show "distinct (unmatched_primary_indices ?st0)" by (simp add: initial_state_simps)
      show "j < length (secondary ?st0)" using j by (simp add: initial_state_simps)
      show "sec_Event_ID (secondary st ! j) = Some e" by fact
    qed
    with j obtain ip where ip: "ip \<in> set (enumerate 0 primary)" and e: "e = Event_ID (snd ip)"
      by (auto simp: initial_state_simps)
    from ip have k: "fst ip < length primary" and s: "primary ! fst ip = snd ip"
      by (auto simp: in_set_enumerate_eq)
    from nth_mem [OF k] have "snd ip \<in> set primary" unfolding s .
    with e show "e \<in> set (map Event_ID primary)" by simp
  qed
  show ?thesis by (intro conjI pri c2 c3 c4 c5 c6)
qed

theorem matching_changes_only_the_assignment_witness:
  "match_data demo_primary demo_secondary = Inr demo_result \<and>
   res_primary demo_result = demo_primary \<and>
   map input_columns (res_secondary demo_result) = demo_secondary \<and>
   map secondary_col (res_secondary demo_result) = [False, True, False, True] \<and>
   (2, jane) \<in> set (missing_events demo_result) \<and> demo_primary ! 2 = jane \<and>
   (0, vip_payout 9) \<in> set (missing_rewards demo_result) \<and> demo_secondary ! 0 = vip_payout 9 \<and>
   sec_Event_ID (res_secondary demo_result ! 3) = Some ''E8'' \<and>
   ''E8'' \<in> set (map Event_ID demo_primary)"
proof -
  note t = matching_changes_only_the_assignment [OF demo_run]
  from t have a: "res_primary demo_result = demo_primary"
    and b: "map input_columns (res_secondary demo_result) = demo_secondary"
    and c: "map secondary_col (res_secondary demo_result) =
        map (\<lambda>s. sec_Event_ID s \<noteq> None) (res_secondary demo_result)" by blast+
  have ids: "map (\<lambda>s. sec_Event_ID s \<noteq> None) (res_secondary demo_result) =
      [False, True, False, True]" by code_simp
  have m1: "(2, jane) \<in> set (missing_events demo_result)"
    and m2: "(0, vip_payout 9) \<in> set (missing_rewards demo_result)" by code_simp+
  from t m1 have "snd (2 :: nat, jane) = demo_primary ! fst (2 :: nat, jane)" by blast
  then have d: "demo_primary ! 2 = jane" by simp
  from t m2 have "snd (0 :: nat, vip_payout 9) = demo_secondary ! fst (0 :: nat, vip_payout 9)"
    by blast
  then have e: "demo_secondary ! 0 = vip_payout 9" by simp
  have f: "sec_Event_ID (res_secondary demo_result ! 3) = Some ''E8''" by code_simp
  have "(3::nat) < length demo_secondary" by (simp add: demo_missing)
  with t f have g: "''E8'' \<in> set (map Event_ID demo_primary)" by blast
  from c ids have c': "map secondary_col (res_secondary demo_result) = [False, True, False, True]"
    by (rule trans)
  show ?thesis by (intro conjI demo_run a b c' m1 d m2 e f g)
qed

text \<open>
  C10 (primary rows with \<open>CASHVIP = 'NO'\<close>). The VIP test is false for such a row
  against every secondary row, so the row is matched with none, and in every run that
  returns it is among the missing events. \<open>prepare_data\<close> only produces the values
  \<open>'YES'\<close> and \<open>'NO'\<close>.
\<close>

theorem cashvip_no_never_matched:
  assumes "i < length primary" and "CASHVIP (primary ! i) = ''NO''"
  shows "(\<forall>s :: secondary_row. \<not> vip_pred (primary ! i) s \<and> is_match (primary ! i) s \<noteq> Inr True) \<and>
         (\<forall>r. match_data primary secondary0 = Inr r \<longrightarrow>
              (i, primary ! i) \<in> set (missing_events r)) \<and>
         (\<forall>raw. CASHVIP (prepare_primary_row raw) = ''YES'' \<or>
                CASHVIP (prepare_primary_row raw) = ''NO'')"
proof (intro conjI allI impI)
  fix s :: secondary_row
  show "\<not> vip_pred (primary ! i) s" using assms(2) by (simp add: vip_pred_def)
  show "is_match (primary ! i) s \<noteq> Inr True" using assms(2) by (rule cashvip_no_no_match)
next
  fix r
  assume "match_data primary secondary0 = Inr r"
  then show "(i, primary ! i) \<in> set (missing_events r)"
    using assms(1) cashvip_no_no_match [OF assms(2)] by (rule never_matching_row_unmatched)
next
  fix raw
  show "CASHVIP (prepare_primary_row raw) = ''YES'' \<or> CASHVIP (prepare_primary_row raw) = ''NO''"
    by (simp add: prepare_primary_row_def)
qed

theorem cashvip_no_never_matched_witness:
  "0 < length [jane] \<and> CASHVIP ([jane] ! 0) = ''NO'' \<and>
   \<not> vip_pred ([jane] ! 0) (add_Event_ID jane_payout) \<and>
   (\<exists>r. match_data [jane] [jane_payout] = Inr r \<and> (0, [jane] ! 0) \<in> set (missing_events r))"
proof -
  have h1: "0 < length [jane]" by simp
  have h2: "CASHVIP ([jane] ! 0) = ''NO''" by code_simp
  note t = cashvip_no_never_matched [OF h1 h2, of "[jane_payout]"]
  from t have a: "\<not> vip_pred ([jane] ! 0) (add_Event_ID jane_payout)" by blast
  from t jane_run have b: "\<exists>r. match_data [jane] [jane_payout] = Inr r \<and>
      (0, [jane] ! 0) \<in> set (missing_events r)" by blast
  from h1 h2 a b show ?thesis by blast
qed

end
